theory Spec2Isabelle
  imports Complex_Main "HOL-Library.Monad_Syntax"
begin

section \<open>Exact fractions (fraction.go)\<close>

text \<open>
  A \<open>Fraction\<close> is the Go struct with the two fields \<open>N\<close> and \<open>D\<close> of type
  \<open>int\<close>, which is 64 bits wide and wraps around. The fields are integers here and
  every arithmetic operation of the source is followed by \<open>wrap\<close>, the reduction
  to the two's-complement range \<open>-2\<^sup>6\<^sup>3 \<dots> 2\<^sup>6\<^sup>3 - 1\<close>; \<open>int64\<close> says that a
  value lies in that range.
\<close>

record Fraction =
  N :: int
  D :: int

definition wrap :: "int \<Rightarrow> int" where
  "wrap x = (x + 2 ^ 63) mod 2 ^ 64 - 2 ^ 63"

definition int64 :: "int \<Rightarrow> bool" where
  "int64 x \<longleftrightarrow> - (2 ^ 63) \<le> x \<and> x < 2 ^ 63"

definition add64 :: "int \<Rightarrow> int \<Rightarrow> int" where
  "add64 a b = wrap (a + b)"

definition sub64 :: "int \<Rightarrow> int \<Rightarrow> int" where
  "sub64 a b = wrap (a - b)"

definition mul64 :: "int \<Rightarrow> int \<Rightarrow> int" where
  "mul64 a b = wrap (a * b)"

text \<open>
  Go's \<open>/\<close> and \<open>%\<close> on integers truncate towards zero, unlike \<open>div\<close> and \<open>mod\<close>
  of HOL, and panic on a zero divisor; the panic is a branch of the functions that use
  them. The quotient of the least value by \<open>-1\<close> wraps around to the least value, the
  remainder is then \<open>0\<close>.
\<close>

definition go_quot :: "int \<Rightarrow> int \<Rightarrow> int" where
  "go_quot a b = wrap (sgn a * sgn b * (\<bar>a\<bar> div \<bar>b\<bar>))"

definition go_rem :: "int \<Rightarrow> int \<Rightarrow> int" where
  "go_rem a b = sgn a * (\<bar>a\<bar> mod \<bar>b\<bar>)"

text \<open>
  The loop of \<open>gcd\<close>: \<open>for { if f = a % b; f == 0 { return b }; a = b; b = f }\<close>.
  \<open>None\<close> is the run-time panic of \<open>a % b\<close> at \<open>b = 0\<close>.
\<close>

function gcd_loop :: "int \<Rightarrow> int \<Rightarrow> int option" where
  "gcd_loop a b =
     (if b = 0 then None
      else (let f = go_rem a b in if f = 0 then Some b else gcd_loop b f))"
  by pat_completeness auto
termination
proof (relation "measure (\<lambda>(a, b). nat \<bar>b\<bar>)")
  show "wf (measure (\<lambda>(a, b). nat \<bar>b\<bar>))" by simp
next
  fix a b f :: int
  assume b: "b \<noteq> 0" and f: "f = go_rem a b"
  have "0 \<le> \<bar>a\<bar> mod \<bar>b\<bar>" and lt: "\<bar>a\<bar> mod \<bar>b\<bar> < \<bar>b\<bar>"
    using b by simp_all
  then have "\<bar>go_rem a b\<bar> \<le> \<bar>a\<bar> mod \<bar>b\<bar>"
    by (cases "a = 0") (simp_all add: go_rem_def abs_mult)
  with lt show "((b, f), (a, b)) \<in> measure (\<lambda>(a, b). nat \<bar>b\<bar>)"
    using f by simp
qed

declare gcd_loop.simps [simp del]

definition gcd_frac :: "Fraction \<Rightarrow> int option" where
  "gcd_frac n =
     (let a = max (D n) (N n); b = min (D n) (N n)
      in if b = 0 \<or> a = 0 then Some 1 else gcd_loop a b)"

text \<open>
  \<open>Simplify\<close> divides both fields by the result of \<open>gcd\<close> and then moves the sign to
  the numerator by two multiplications by \<open>-1\<close>. \<open>None\<close> is a panic: of \<open>gcd\<close>, or
  of the division by \<open>f = 0\<close>.
\<close>

definition Simplify :: "Fraction \<Rightarrow> Fraction option" where
  "Simplify n =
     (case gcd_frac n of
        None \<Rightarrow> None
      | Some f \<Rightarrow>
          if f = 0 then None
          else (let d = go_quot (D n) f; k = go_quot (N n) f
                in if d < 0 then Some \<lparr>N = mul64 k (- 1), D = mul64 d (- 1)\<rparr>
                   else Some \<lparr>N = k, D = d\<rparr>))"

text \<open>
  The five arithmetic operations build the raw numerator and denominator, each
  operation wrapping around, and call \<open>Simplify\<close> on the result (a named result in
  Go, simplified in place).
\<close>

definition Add :: "Fraction \<Rightarrow> Fraction \<Rightarrow> Fraction option" where
  "Add a b =
     Simplify \<lparr>N = add64 (mul64 (N a) (D b)) (mul64 (D a) (N b)), D = mul64 (D a) (D b)\<rparr>"

definition Sub :: "Fraction \<Rightarrow> Fraction \<Rightarrow> Fraction option" where
  "Sub a b =
     Simplify \<lparr>N = sub64 (mul64 (N a) (D b)) (mul64 (N b) (D a)), D = mul64 (D a) (D b)\<rparr>"

definition Mul :: "Fraction \<Rightarrow> Fraction \<Rightarrow> Fraction option" where
  "Mul a b = Simplify \<lparr>N = mul64 (N a) (N b), D = mul64 (D a) (D b)\<rparr>"

definition Div :: "Fraction \<Rightarrow> Fraction \<Rightarrow> Fraction option" where
  "Div a b = Simplify \<lparr>N = mul64 (N a) (D b), D = mul64 (D a) (N b)\<rparr>"

definition Neg :: "Fraction \<Rightarrow> Fraction option" where
  "Neg a = Mul a \<lparr>N = - 1, D = 1\<rparr>"

text \<open>
  The rational number a fraction stands for. A zero denominator stands for no number;
  HOL's division gives \<open>0\<close> there, so statements about \<open>val\<close> carry the
  hypothesis that the denominators involved are not zero.
\<close>

definition val :: "Fraction \<Rightarrow> rat" where
  "val x = of_int (N x) / of_int (D x)"

definition reduced :: "Fraction \<Rightarrow> bool" where
  "reduced x \<longleftrightarrow> 0 < D x \<and> gcd \<bar>N x\<bar> (D x) = 1"

text \<open>Both fields of a fraction are at most \<open>B\<close> in absolute value.\<close>

definition bounded_by :: "int \<Rightarrow> Fraction \<Rightarrow> bool" where
  "bounded_by B x \<longleftrightarrow> \<bar>N x\<bar> \<le> B \<and> \<bar>D x\<bar> \<le> B"


section \<open>The simplex tableau (tableau.go)\<close>

text \<open>
  The struct \<open>Tableau\<close>: the grid of fractions, one mask per column (\<open>dirtX\<close>) and
  per row (\<open>dirtY\<close>), the labels, and the sense of the optimisation. Slices are lists.
  The last row is the objective row, the last column the constant column.
\<close>

record Tableau =
  Table :: "Fraction list list"
  dirtX :: "bool list"
  dirtY :: "bool list"
  RowNames :: "string list"
  ColNames :: "string list"
  IsMaximization :: bool

text \<open>
  A tableau is well formed when the grid is a non-empty rectangle with at least one
  column and the masks and labels have the grid's dimensions. \<open>Init\<close> builds such a
  tableau and \<open>Transform\<close> keeps it so. The functions below read the slices with
  \<open>!\<close>; on a well-formed tableau every such read is in range, elsewhere Go panics
  with an index error and the model says nothing. The one index that is an argument,
  the pivot coordinate of \<open>Transform\<close>, is checked in the model.
\<close>

definition wf_tableau :: "Tableau \<Rightarrow> bool" where
  "wf_tableau t \<longleftrightarrow>
     Table t \<noteq> [] \<and> 0 < length (Table t ! 0) \<and>
     list_all (\<lambda>row. length row = length (Table t ! 0)) (Table t) \<and>
     length (dirtX t) = length (Table t ! 0) \<and>
     length (dirtY t) = length (Table t) \<and>
     length (RowNames t) = length (Table t) \<and>
     length (ColNames t) = length (Table t ! 0)"

definition IsPivotValid :: "int \<Rightarrow> int \<Rightarrow> bool" where
  "IsPivotValid r s \<longleftrightarrow> r \<ge> 0 \<and> s \<ge> 0"

text \<open>\<open>fmt.Sprintf("%d", k)\<close> for a natural number.\<close>

fun dec :: "nat \<Rightarrow> string" where
  "dec k = (if k < 10 then [''0123456789'' ! k]
            else dec (k div 10) @ [''0123456789'' ! (k mod 10)])"

declare dec.simps [simp del]

text \<open>
  \<open>Init\<close>: \<open>make\<close> fills every slice with the zero value of its element type, which
  for \<open>Fraction\<close> is the struct with both fields \<open>0\<close>. \<open>None\<close> is the panic of
  \<open>make\<close> at a negative length or of the writes at index \<open>rows-1\<close>, \<open>cols-1\<close>.
\<close>

definition Init :: "int \<Rightarrow> int \<Rightarrow> Tableau option" where
  "Init rows cols =
     (if rows < 1 \<or> cols < 1 then None
      else Some \<lparr>
        Table = replicate (nat rows) (replicate (nat cols) \<lparr>N = 0, D = 0\<rparr>),
        dirtX = replicate (nat cols) False,
        dirtY = replicate (nat rows) False,
        RowNames = map (\<lambda>i. ''s'' @ dec (i + 1)) [0..<nat rows - 1] @ [''F''],
        ColNames = map (\<lambda>j. ''-x'' @ dec (j + 1)) [0..<nat cols - 1] @ [''const''],
        IsMaximization = True\<rparr>)"

definition SetMaximization :: "Tableau \<Rightarrow> bool \<Rightarrow> Tableau" where
  "SetMaximization a isMax = a\<lparr>IsMaximization := isMax\<rparr>"

subsection \<open>Pivot selection\<close>

text \<open>
  One round of the first loop of \<open>Pivot\<close>, over the columns \<open>j < n-1\<close>; the state is
  the pair of \<open>s\<close> and \<open>pivotValue\<close>.
\<close>

definition enter_step :: "Tableau \<Rightarrow> nat \<Rightarrow> int \<times> Fraction \<Rightarrow> nat \<Rightarrow> int \<times> Fraction" where
  "enter_step t m st j =
     (case st of (s, pivotValue) \<Rightarrow>
        if \<not> dirtX t ! j then
          (if IsMaximization t \<and> N (Table t ! (m - 1) ! j) < 0 then
             (if s = - 1 \<or> N (Table t ! (m - 1) ! j) < N pivotValue
              then (int j, Table t ! (m - 1) ! j) else (s, pivotValue))
           else if \<not> IsMaximization t \<and> N (Table t ! (m - 1) ! j) > 0 then
             (if s = - 1 \<or> N (Table t ! (m - 1) ! j) > N pivotValue
              then (int j, Table t ! (m - 1) ! j) else (s, pivotValue))
           else (s, pivotValue))
        else (s, pivotValue))"

definition Pivot_enter :: "Tableau \<Rightarrow> int" where
  "Pivot_enter t =
     (let m = length (Table t); n = length (Table t ! 0)
      in fst (foldl (enter_step t m) (- 1, \<lparr>N = 0, D = 1\<rparr>) [0..<n - 1]))"

text \<open>
  The second loop of \<open>Pivot\<close>, over the rows \<open>i < m-1\<close>; the state is the pair of
  \<open>r\<close> and \<open>minRatio\<close>. The two products of the comparison wrap around like every
  other multiplication of \<open>int\<close>.
\<close>

fun leave_loop :: "Tableau \<Rightarrow> nat \<Rightarrow> nat \<Rightarrow> nat list \<Rightarrow> int \<times> Fraction \<Rightarrow> (int \<times> Fraction) option" where
  "leave_loop t n s [] st = Some st"
| "leave_loop t n s (i # rest) (r, minRatio) =
     (if \<not> dirtY t ! i \<and> N (Table t ! i ! s) > 0 then
        (case Div (Table t ! i ! (n - 1)) (Table t ! i ! s) of
           None \<Rightarrow> None
         | Some ratio \<Rightarrow>
             if r = - 1 \<or> (N ratio > 0 \<and> (N minRatio \<le> 0 \<or>
                  mul64 (N ratio) (D minRatio) < mul64 (N minRatio) (D ratio)))
             then leave_loop t n s rest (int i, ratio)
             else leave_loop t n s rest (r, minRatio))
      else leave_loop t n s rest (r, minRatio))"

definition Pivot_leave :: "Tableau \<Rightarrow> nat \<Rightarrow> int option" where
  "Pivot_leave t s =
     (let m = length (Table t); n = length (Table t ! 0)
      in map_option fst (leave_loop t n s [0..<m - 1] (- 1, \<lparr>N = 0, D = 0\<rparr>)))"

definition Pivot :: "Tableau \<Rightarrow> (int \<times> int) option" where
  "Pivot t =
     (let s = Pivot_enter t
      in if s = - 1 then Some (- 1, - 1)
         else (case Pivot_leave t (nat s) of
                 None \<Rightarrow> None
               | Some r \<Rightarrow> if r = - 1 then Some (- 1, - 1) else Some (r, s)))"

text \<open>
  \<open>PivotForFeasibility\<close>: the first loop stops at the first row it accepts, which is
  \<open>find\<close>; the second loop keeps \<open>s\<close> and \<open>mostNegative\<close>.
\<close>

definition feas_step :: "Tableau \<Rightarrow> nat \<Rightarrow> int \<times> Fraction \<Rightarrow> nat \<Rightarrow> int \<times> Fraction" where
  "feas_step t r st j =
     (case st of (s, mostNegative) \<Rightarrow>
        if N (Table t ! r ! j) < 0 \<and> \<not> dirtX t ! j then
          (if s = - 1 \<or> N (Table t ! r ! j) < N mostNegative
           then (int j, Table t ! r ! j) else (s, mostNegative))
        else (s, mostNegative))"

definition PivotForFeasibility :: "Tableau \<Rightarrow> int \<times> int" where
  "PivotForFeasibility t =
     (let n = length (Table t ! 0); m = length (Table t)
      in case find (\<lambda>i. N (Table t ! i ! (n - 1)) < 0 \<and> \<not> dirtY t ! i) [0..<m - 1] of
           None \<Rightarrow> (- 1, - 1)
         | Some r \<Rightarrow>
             (int r, fst (foldl (feas_step t r) (- 1, \<lparr>N = 0, D = 1\<rparr>) [0..<n - 1])))"

subsection \<open>Termination checks\<close>

definition IsFeasible :: "Tableau \<Rightarrow> bool" where
  "IsFeasible a =
     (let n = length (Table a ! 0)
      in list_all (\<lambda>i. \<not> N (Table a ! i ! (n - 1)) < 0) [0..<length (Table a) - 1])"

definition IsOptimal :: "Tableau \<Rightarrow> bool" where
  "IsOptimal a =
     (let n = length (Table a ! 0); m = length (Table a)
      in list_all (\<lambda>j. \<not> ((IsMaximization a \<and> N (Table a ! (m - 1) ! j) < 0) \<or>
                          (\<not> IsMaximization a \<and> N (Table a ! (m - 1) ! j) > 0)))
           [0..<n - 1])"


subsection \<open>The pivot transform\<close>

definition fillElement :: "Tableau \<Rightarrow> nat \<Rightarrow> nat \<Rightarrow> nat \<Rightarrow> nat \<Rightarrow> Fraction option" where
  "fillElement a i j r s =
     (let pivotElement = Table a ! r ! s
      in do {
        term1 \<leftarrow> Mul (Table a ! i ! j) pivotElement;
        term2 \<leftarrow> Mul (Table a ! i ! s) (Table a ! r ! j);
        d \<leftarrow> Sub term1 term2;
        Div d pivotElement
      })"

text \<open>
  \<open>Transform\<close> copies the tableau and then writes every cell of the copy once, from
  cells of the old tableau only: the pivot cell, the rest of the pivot row, and for each
  other row the cells off the pivot column through \<open>fillElement\<close> and the cell in the
  pivot column. \<open>Transform_cell\<close> is the value written to cell \<open>(i, j)\<close>.
\<close>

definition Transform_cell :: "Tableau \<Rightarrow> nat \<Rightarrow> nat \<Rightarrow> nat \<Rightarrow> nat \<Rightarrow> Fraction option" where
  "Transform_cell t r s i j =
     (let pivotElement = Table t ! r ! s
      in if i = r then
           (if j = s then Div \<lparr>N = 1, D = 1\<rparr> pivotElement
            else Div (Table t ! r ! j) pivotElement)
         else if j \<noteq> s then fillElement t i j r s
         else do { q \<leftarrow> Div (Table t ! i ! s) pivotElement; Neg q })"

text \<open>
  \<open>None\<close> is a panic: the index error of a pivot coordinate outside the grid, or a
  panic of the fraction arithmetic.
\<close>

definition Transform :: "Tableau \<Rightarrow> int \<Rightarrow> int \<Rightarrow> Tableau option" where
  "Transform t r s =
     (if r < 0 \<or> s < 0 \<or> length (Table t) \<le> nat r \<or> length (Table t ! 0) \<le> nat s
      then None
      else
        (case those (map (\<lambda>i. those (map (\<lambda>j. Transform_cell t (nat r) (nat s) i j)
                                      [0..<length (Table t ! 0)]))
                         [0..<length (Table t)]) of
           None \<Rightarrow> None
         | Some cells \<Rightarrow>
             Some \<lparr>Table = cells,
                   dirtX = (dirtX t)[nat s := True],
                   dirtY = (dirtY t)[nat r := True],
                   RowNames = (RowNames t)[nat r := ColNames t ! nat s],
                   ColNames = (ColNames t)[nat s := RowNames t ! nat r],
                   IsMaximization = IsMaximization t\<rparr>))"

subsection \<open>Feasibility restoration\<close>

text \<open>
  The loop of \<open>MakeFeasible\<close> with its counter \<open>iteration\<close>, which starts at \<open>1\<close>.
  The result is the returned flag and the tableau the receiver holds on return.
\<close>

function MakeFeasible_loop :: "Tableau \<Rightarrow> nat \<Rightarrow> (bool \<times> Tableau) option" where
  "MakeFeasible_loop t iteration =
     (if IsFeasible t then Some (True, t)
      else
        (case PivotForFeasibility t of (r, s) \<Rightarrow>
           if \<not> IsPivotValid r s then Some (False, t)
           else
             (case Transform t r s of
                None \<Rightarrow> None
              | Some t' \<Rightarrow>
                  if iteration + 1 > 20 then Some (False, t')
                  else MakeFeasible_loop t' (iteration + 1))))"
  by pat_completeness auto
termination
  by (relation "measure (\<lambda>(t, iteration). 21 - iteration)") auto

declare MakeFeasible_loop.simps [simp del]

definition MakeFeasible :: "Tableau \<Rightarrow> (bool \<times> Tableau) option" where
  "MakeFeasible t = MakeFeasible_loop t 1"

subsection \<open>Solution extraction\<close>

definition GetSolution :: "Tableau \<Rightarrow> (string \<rightharpoonup> Fraction)" where
  "GetSolution a =
     (let m = length (Table a); n = length (Table a ! 0);
          solution0 = [''objective'' \<mapsto> Table a ! (m - 1) ! (n - 1)];
          solution1 = foldl (\<lambda>sol i.
                         foldl (\<lambda>sol' j. sol'(RowNames a ! i \<mapsto> Table a ! i ! (n - 1)))
                               sol [0..<n - 1])
                       solution0 [0..<m - 1]
      in foldl (\<lambda>sol j. if sol (ColNames a ! j) = None
                         then sol(ColNames a ! j \<mapsto> \<lparr>N = 0, D = 1\<rparr>) else sol)
               solution1 [0..<n - 1])"


subsection \<open>Names for the statements\<close>

definition nrows :: "Tableau \<Rightarrow> nat" where
  "nrows t = length (Table t)"

definition ncols :: "Tableau \<Rightarrow> nat" where
  "ncols t = length (Table t ! 0)"

text \<open>
  Column \<open>j\<close> is improving when its entry in the objective row has the sign that the
  first loop of \<open>Pivot\<close> and \<open>IsOptimal\<close> test for: a negative numerator when
  maximising, a positive one when minimising.
\<close>

definition improving :: "Tableau \<Rightarrow> nat \<Rightarrow> bool" where
  "improving t j \<longleftrightarrow>
     (IsMaximization t \<and> N (Table t ! (length (Table t) - 1) ! j) < 0) \<or>
     (\<not> IsMaximization t \<and> N (Table t ! (length (Table t) - 1) ! j) > 0)"

text \<open>
  Every entry has the normal form of the sign that \<open>Simplify\<close> establishes, a
  positive denominator; in particular it stands for a rational number.
\<close>

definition positive_denominators :: "Tableau \<Rightarrow> bool" where
  "positive_denominators t \<longleftrightarrow> list_all (list_all (\<lambda>x. 0 < D x)) (Table t)"

text \<open>
  Every numerator and every denominator of the grid is at most \<open>B\<close> in absolute
  value. The statements about values bound the entries so that no product of the
  operations involved leaves the range of \<open>int\<close>.
\<close>

definition entries_within :: "int \<Rightarrow> Tableau \<Rightarrow> bool" where
  "entries_within B t \<longleftrightarrow> list_all (list_all (bounded_by B)) (Table t)"

text \<open>
  The rows that the second loop of \<open>Pivot\<close> considers for column \<open>s\<close>, and the
  ratio of the minimum-ratio test as a rational number.
\<close>

definition candidate :: "Tableau \<Rightarrow> nat \<Rightarrow> nat \<Rightarrow> bool" where
  "candidate t s i \<longleftrightarrow> \<not> dirtY t ! i \<and> 0 < N (Table t ! i ! s)"

definition ratio :: "Tableau \<Rightarrow> nat \<Rightarrow> nat \<Rightarrow> rat" where
  "ratio t s i = val (Table t ! i ! (ncols t - 1)) / val (Table t ! i ! s)"

text \<open>
  The row that the loop holds after the rows below \<open>k\<close>: among the candidates \<open>c\<close>
  with a strictly positive ratio \<open>\<rho>\<close> the first one of least ratio; when no candidate
  has a strictly positive ratio, the first candidate.
\<close>

definition smallest_positive_ratio :: "(nat \<Rightarrow> bool) \<Rightarrow> (nat \<Rightarrow> rat) \<Rightarrow> nat \<Rightarrow> nat \<Rightarrow> bool" where
  "smallest_positive_ratio c \<rho> k r \<longleftrightarrow>
     r < k \<and> c r \<and>
     (if \<exists>i < k. c i \<and> 0 < \<rho> i
      then 0 < \<rho> r \<and> (\<forall>i < k. c i \<and> 0 < \<rho> i \<longrightarrow> \<rho> r \<le> \<rho> i \<and> (i < r \<longrightarrow> \<rho> r < \<rho> i))
      else \<forall>i < k. c i \<longrightarrow> r \<le> i)"

text \<open>
  The tests of the two loops of \<open>PivotForFeasibility\<close>: row \<open>i\<close> is unmasked with a
  negative constant, and column \<open>j\<close> is unmasked with a negative entry in row \<open>i\<close>.
\<close>

definition negative_row :: "Tableau \<Rightarrow> nat \<Rightarrow> bool" where
  "negative_row t i \<longleftrightarrow> N (Table t ! i ! (ncols t - 1)) < 0 \<and> \<not> dirtY t ! i"

definition negative_col :: "Tableau \<Rightarrow> nat \<Rightarrow> nat \<Rightarrow> bool" where
  "negative_col t i j \<longleftrightarrow> N (Table t ! i ! j) < 0 \<and> \<not> dirtX t ! j"

text \<open>
  \<open>feas_pivots k t\<close> is the tableau after \<open>k\<close> rounds of the loop of \<open>MakeFeasible\<close>:
  each round starts from a tableau that is not feasible, on which
  \<open>PivotForFeasibility\<close> returns a valid pair, and applies \<open>Transform\<close> to that
  pair. It is \<open>None\<close> when fewer than \<open>k\<close> such rounds are possible.
\<close>

fun feas_pivots :: "nat \<Rightarrow> Tableau \<Rightarrow> Tableau option" where
  "feas_pivots 0 t = Some t"
| "feas_pivots (Suc k) t =
     (if IsFeasible t \<or>
         \<not> IsPivotValid (fst (PivotForFeasibility t)) (snd (PivotForFeasibility t))
      then None
      else (case Transform t (fst (PivotForFeasibility t)) (snd (PivotForFeasibility t)) of
              None \<Rightarrow> None
            | Some t' \<Rightarrow> feas_pivots k t'))"

subsection \<open>Concrete tableaus\<close>

text \<open>
  A tableau over a given grid with clear masks and the default labels of \<open>Init\<close>,
  and the grids the examples below are run on. \<open>frac n d\<close> is the struct literal
  \<open>Fraction{n, d}\<close>.
\<close>

definition frac :: "int \<Rightarrow> int \<Rightarrow> Fraction" where
  "frac n d = \<lparr>N = n, D = d\<rparr>"

definition tableau_of :: "Fraction list list \<Rightarrow> bool \<Rightarrow> Tableau" where
  "tableau_of T isMax =
     \<lparr>Table = T,
      dirtX = replicate (length (T ! 0)) False,
      dirtY = replicate (length T) False,
      RowNames = map (\<lambda>i. ''s'' @ dec (i + 1)) [0..<length T - 1] @ [''F''],
      ColNames = map (\<lambda>j. ''-x'' @ dec (j + 1)) [0..<length (T ! 0) - 1] @ [''const''],
      IsMaximization = isMax\<rparr>"

text \<open>Maximise; the objective row holds \<open>-1\<close> and \<open>-3/4\<close>.\<close>

definition ex_numerators :: Tableau where
  "ex_numerators = tableau_of
     [[frac 1 1, frac 1 1, frac 4 1],
      [frac (- 1) 1, frac (- 3) 4, frac 0 1]] True"

text \<open>Both selections find a pivot: row \<open>0\<close> has a negative constant.\<close>

definition ex_both :: Tableau where
  "ex_both = tableau_of
     [[frac (- 1) 1, frac (- 3) 4, frac (- 5) 1],
      [frac 1 1, frac 2 1, frac 3 1],
      [frac (- 1) 1, frac (- 3) 4, frac 0 1]] True"

text \<open>Maximise \<open>x\<close> subject to \<open>x \<le> 1\<close>: one pivot reaches the optimum.\<close>

definition ex_one_step :: Tableau where
  "ex_one_step = tableau_of
     [[frac 1 1, frac 1 1],
      [frac (- 1) 1, frac 0 1]] True"

text \<open>No improving column (optimal), and an improving column without a limiting row (unbounded).\<close>

definition ex_optimal :: Tableau where
  "ex_optimal = tableau_of
     [[frac 1 1, frac 1 1],
      [frac 1 1, frac 1 1]] True"

definition ex_unbounded :: Tableau where
  "ex_unbounded = tableau_of
     [[frac (- 1) 1, frac 1 1],
      [frac (- 1) 1, frac 0 1]] True"

text \<open>The first candidate row has ratio \<open>0\<close>, the second ratio \<open>5\<close>.\<close>

definition ex_zero_ratio :: Tableau where
  "ex_zero_ratio = tableau_of
     [[frac 1 1, frac 0 1],
      [frac 1 1, frac 5 1],
      [frac (- 1) 1, frac 0 1]] True"

text \<open>
  Row \<open>0\<close> has the ratio \<open>2\<^sup>4\<^sup>0\<close>; row \<open>1\<close> has the ratio
  \<open>(2\<^sup>3\<^sup>2 + 1) / (1 / 2\<^sup>3\<^sup>2) = 2\<^sup>6\<^sup>4 + 2\<^sup>3\<^sup>2\<close>, whose numerator does not fit into
  64 bits.
\<close>

definition ex_ratio_overflow :: Tableau where
  "ex_ratio_overflow = tableau_of
     [[frac 1 1, frac 1099511627776 1],
      [frac 1 4294967296, frac 4294967297 1],
      [frac (- 1) 1, frac 0 1]] True"

text \<open>
  Maximise \<open>2\<^sup>3\<^sup>2 x\<close> subject to \<open>2\<^sup>3\<^sup>2 x \<le> 2\<^sup>3\<^sup>2\<close>: the product of two entries is
  \<open>2\<^sup>6\<^sup>4\<close>.
\<close>

definition ex_overflow :: Tableau where
  "ex_overflow = tableau_of
     [[frac 4294967296 1, frac 4294967296 1],
      [frac (- 4294967296) 1, frac 0 1]] True"

text \<open>The labels have been entered by hand: the first row is called \<open>objective\<close>.\<close>

definition ex_label_clash :: Tableau where
  "ex_label_clash =
     (tableau_of
        [[frac 1 1, frac 1 1, frac 4 1],
         [frac (- 1) 1, frac (- 3) 4, frac 7 1]] True)
     \<lparr>RowNames := [''objective'', ''F'']\<rparr>"

text \<open>One pivot on \<open>(0, 1)\<close> makes the constant of row \<open>0\<close> positive.\<close>

definition ex_restorable :: Tableau where
  "ex_restorable = tableau_of
     [[frac (- 1) 1, frac (- 3) 4, frac (- 5) 1],
      [frac (- 1) 1, frac (- 3) 4, frac 0 1]] True"

text \<open>
  Twenty constraints \<open>-x\<^sub>a \<le> -1\<close>: row \<open>a < 20\<close> holds \<open>-1\<close> in column \<open>a\<close> and in
  the constant column, the objective row is zero. \<open>twenty_grid i\<close> is the grid after
  \<open>i\<close> rounds of \<open>MakeFeasible\<close>, in which the constants of the rows below \<open>i\<close>
  have become \<open>1\<close>, and \<open>twenty_after i t\<close> says that \<open>t\<close> is the tableau then.
\<close>

definition twenty_grid :: "nat \<Rightarrow> Fraction list list" where
  "twenty_grid i =
     map (\<lambda>a. map (\<lambda>b. if a < 20 \<and> b = a then frac (- 1) 1
                        else if a < 20 \<and> b = 20 then (if a < i then frac 1 1 else frac (- 1) 1)
                        else frac 0 1) [0..<21]) [0..<21]"

definition ex_twenty :: Tableau where
  "ex_twenty = tableau_of (twenty_grid 0) True"

definition twenty_after :: "nat \<Rightarrow> Tableau \<Rightarrow> bool" where
  "twenty_after i t \<longleftrightarrow>
     wf_tableau t \<and> Table t = twenty_grid i \<and>
     list_all (\<lambda>a. dirtY t ! a = (a < i) \<and> dirtX t ! a = (a < i)) [0..<20]"

text \<open>A constraint \<open>x \<le> -5\<close>: the constant is negative and the row has no negative entry.\<close>

definition ex_infeasible :: Tableau where
  "ex_infeasible = tableau_of
     [[frac 1 1, frac (- 5) 1],
      [frac (- 1) 1, frac 0 1]] True"

section \<open>Properties of the fractions\<close>

lemma wrap_int64: "int64 (wrap x)"
proof -
  have "0 \<le> (x + 2 ^ 63) mod 2 ^ 64" "(x + 2 ^ 63) mod 2 ^ 64 < (2 :: int) ^ 64"
    by simp_all
  then show ?thesis unfolding wrap_def int64_def by simp
qed

lemma wrap_id: "\<bar>x\<bar> < 2 ^ 63 \<Longrightarrow> wrap x = x"
  unfolding wrap_def by (simp add: abs_less_iff)

lemma mul64_id: "\<bar>a * b\<bar> < 2 ^ 63 \<Longrightarrow> mul64 a b = a * b"
  by (simp add: mul64_def wrap_id)

lemma neg64_id: "\<bar>a\<bar> < 2 ^ 63 \<Longrightarrow> mul64 a (- 1) = - a"
  by (simp add: mul64_def wrap_id)

lemma abs_go_rem: "b \<noteq> 0 \<Longrightarrow> \<bar>go_rem a b\<bar> = \<bar>a\<bar> mod \<bar>b\<bar>"
  by (cases "a = 0") (simp_all add: go_rem_def abs_mult)

lemma gcd_loop_Some: "b \<noteq> 0 \<Longrightarrow> \<exists>g. gcd_loop a b = Some g \<and> \<bar>g\<bar> = gcd a b"
proof (induction a b rule: gcd_loop.induct)
  case (1 a b)
  let ?f = "go_rem a b"
  have af: "\<bar>?f\<bar> = \<bar>a\<bar> mod \<bar>b\<bar>" using 1(2) by (rule abs_go_rem)
  have g: "gcd b ?f = gcd a b"
  proof -
    have "gcd b ?f = gcd \<bar>b\<bar> \<bar>?f\<bar>" by simp
    also have "\<dots> = gcd \<bar>b\<bar> (\<bar>a\<bar> mod \<bar>b\<bar>)" by (simp only: af)
    also have "\<dots> = gcd \<bar>a\<bar> \<bar>b\<bar>" by (rule gcd_red_int[symmetric])
    finally show ?thesis by simp
  qed
  show ?case
  proof (cases "?f = 0")
    case True
    with g have "gcd a b = \<bar>b\<bar>" by simp
    with True 1(2) show ?thesis by (subst gcd_loop.simps) simp
  next
    case False
    from 1(1)[OF 1(2) refl False False] obtain g where
      "gcd_loop b ?f = Some g" "\<bar>g\<bar> = gcd b ?f" by blast
    with False 1(2) g show ?thesis by (subst gcd_loop.simps) (simp add: Let_def)
  qed
qed

lemma gcd_frac_zero: "N n = 0 \<or> D n = 0 \<Longrightarrow> gcd_frac n = Some 1"
  unfolding gcd_frac_def Let_def by (cases "D n \<le> N n") (auto simp: max_def min_def)

lemma gcd_frac_nonzero:
  assumes "N n \<noteq> 0" "D n \<noteq> 0"
  shows "\<exists>g. gcd_frac n = Some g \<and> \<bar>g\<bar> = gcd (N n) (D n)"
proof (cases "D n \<le> N n")
  case True
  then have "gcd_frac n = gcd_loop (N n) (D n)"
    using assms unfolding gcd_frac_def Let_def by (simp add: max_def min_def)
  then show ?thesis using gcd_loop_Some[OF assms(2), of "N n"] by simp
next
  case False
  then have "gcd_frac n = gcd_loop (D n) (N n)"
    using assms unfolding gcd_frac_def Let_def by (simp add: max_def min_def)
  then show ?thesis using gcd_loop_Some[OF assms(1), of "D n"] by (simp add: gcd.commute)
qed

lemma Simplify_Some:
  "\<exists>x. Simplify n = Some x"
proof (cases "N n = 0 \<or> D n = 0")
  case True
  then show ?thesis by (simp add: Simplify_def gcd_frac_zero Let_def)
next
  case False
  with gcd_frac_nonzero[of n] obtain g where "gcd_frac n = Some g" "\<bar>g\<bar> = gcd (N n) (D n)" by blast
  moreover from this False have "g \<noteq> 0" by auto
  ultimately show ?thesis by (simp add: Simplify_def Let_def)
qed

lemma trunc_quot_dvd: "g dvd a \<Longrightarrow> sgn a * sgn g * (\<bar>a\<bar> div \<bar>g\<bar>) = a div g" for a g :: int
proof -
  assume "g dvd a"
  then obtain k where k: "a = g * k" by (auto simp: dvd_def)
  show ?thesis
  proof (cases "g = 0")
    case True then show ?thesis by simp
  next
    case False
    then have "\<bar>a\<bar> div \<bar>g\<bar> = \<bar>k\<bar>" by (simp add: k abs_mult)
    moreover have "sgn a * sgn g * \<bar>k\<bar> = k"
    proof -
      have "sgn a * sgn g * \<bar>k\<bar> = (sgn g * sgn g) * (sgn k * \<bar>k\<bar>)"
        by (simp add: k sgn_mult)
      also have "\<dots> = k" using False by (simp add: sgn_mult_self_eq sgn_mult_abs)
      finally show ?thesis .
    qed
    ultimately show ?thesis using False by (simp add: k)
  qed
qed

lemma abs_div_le: "g dvd a \<Longrightarrow> \<bar>a div g\<bar> \<le> \<bar>a\<bar>" for a g :: int
proof -
  assume "g dvd a"
  then obtain k where k: "a = g * k" by (auto simp: dvd_def)
  show ?thesis
  proof (cases "g = 0")
    case True then show ?thesis by simp
  next
    case False
    then have "1 \<le> \<bar>g\<bar>" by simp
    then have "\<bar>k\<bar> * 1 \<le> \<bar>k\<bar> * \<bar>g\<bar>" by (intro mult_left_mono) simp_all
    then show ?thesis using False by (simp add: k abs_mult mult.commute)
  qed
qed

lemma go_quot_dvd: "g dvd a \<Longrightarrow> \<bar>a\<bar> < 2 ^ 63 \<Longrightarrow> go_quot a g = a div g"
proof -
  assume g: "g dvd a" and a: "\<bar>a\<bar> < 2 ^ 63"
  from abs_div_le[OF g] a have "\<bar>a div g\<bar> < 2 ^ 63" by simp
  then show ?thesis by (simp add: go_quot_def trunc_quot_dvd[OF g] wrap_id)
qed

lemma Simplify_zero_num:
  "N n = 0 \<Longrightarrow> \<bar>D n\<bar> < 2 ^ 63 \<Longrightarrow> Simplify n = Some \<lparr>N = 0, D = \<bar>D n\<bar>\<rparr>"
  by (simp add: Simplify_def gcd_frac_zero Let_def go_quot_dvd neg64_id)

lemma Simplify_zero_den:
  "D n = 0 \<Longrightarrow> \<bar>N n\<bar> < 2 ^ 63 \<Longrightarrow> Simplify n = Some \<lparr>N = N n, D = 0\<rparr>"
  by (simp add: Simplify_def gcd_frac_zero Let_def go_quot_dvd)

lemma Simplify_nonzero:
  assumes nz: "N n \<noteq> 0" "D n \<noteq> 0" and rng: "\<bar>N n\<bar> < 2 ^ 63" "\<bar>D n\<bar> < 2 ^ 63"
  shows "Simplify n =
    Some \<lparr>N = (if D n < 0 then - N n else N n) div gcd (N n) (D n),
          D = \<bar>D n\<bar> div gcd (N n) (D n)\<rparr>"
proof -
  let ?G = "gcd (N n) (D n)"
  from gcd_frac_nonzero[OF nz] obtain g where g: "gcd_frac n = Some g" "\<bar>g\<bar> = ?G" by blast
  have Gpos: "0 < ?G" using nz by (simp add: gcd_pos_int)
  then have g0: "g \<noteq> 0" using g(2) by auto
  have dv: "g dvd N n" "g dvd D n" "?G dvd N n" "?G dvd D n"
    using g(2) by (metis abs_dvd_iff gcd_dvd1, metis abs_dvd_iff gcd_dvd2, simp_all)
  have q: "go_quot (D n) g = D n div g" "go_quot (N n) g = N n div g"
    using dv rng by (simp_all add: go_quot_dvd)
  have small: "\<bar>N n div g\<bar> < 2 ^ 63" "\<bar>D n div g\<bar> < 2 ^ 63"
    using abs_div_le[OF dv(1)] abs_div_le[OF dv(2)] rng by simp_all
  have S: "Simplify n = (if D n div g < 0 then Some \<lparr>N = - (N n div g), D = - (D n div g)\<rparr>
        else Some \<lparr>N = N n div g, D = D n div g\<rparr>)"
    using g(1) g0 q small by (simp add: Simplify_def Let_def neg64_id)
  have sgnD: "D n div ?G < 0 \<longleftrightarrow> D n < 0"
    using Gpos dv(4) nz(2) by (metis div_neg_pos_less0 dvd_div_eq_0_iff linorder_neqE_linordered_idom not_less pos_imp_zdiv_neg_iff order_less_imp_le)
  have ne: "D n div ?G \<noteq> 0" using dv(4) nz(2) by (simp add: dvd_div_eq_0_iff)
  consider "g = ?G" | "g = - ?G" using g(2) by (auto simp: abs_if split: if_splits)
  then show ?thesis
  proof cases
    case 1
    show ?thesis unfolding S unfolding 1 using sgnD dv(3,4)
      by (auto simp: dvd_neg_div abs_if)
  next
    case 2
    have "D n div g = - (D n div ?G)" "N n div g = - (N n div ?G)"
      unfolding 2 using dv(3,4) by (simp_all add: dvd_div_neg)
    then show ?thesis unfolding S using sgnD dv(3,4) ne
      by (auto simp: dvd_neg_div abs_if)
  qed
qed


lemma mult_pos_sign:
  fixes G b :: int
  shows "0 < G \<Longrightarrow> (0 < b * G) = (0 < b)" and "0 < G \<Longrightarrow> (b * G < 0) = (b < 0)"
  by (auto simp: zero_less_mult_iff mult_less_0_iff)

lemma abs_factor_le: "0 < G \<Longrightarrow> \<bar>a\<bar> \<le> \<bar>a * G\<bar>" for a G :: int
proof -
  assume "0 < G"
  then have "\<bar>a\<bar> * 1 \<le> \<bar>a\<bar> * G" by (intro mult_left_mono) simp_all
  with \<open>0 < G\<close> show ?thesis by (simp add: abs_mult)
qed

lemma Simplify_nonzero_coprime:
  assumes nz: "N n \<noteq> 0" "D n \<noteq> 0" and rng: "\<bar>N n\<bar> < 2 ^ 63" "\<bar>D n\<bar> < 2 ^ 63"
  obtains a b where "N n = a * gcd (N n) (D n)" "D n = b * gcd (N n) (D n)" "coprime a b"
    "a \<noteq> 0" "b \<noteq> 0"
    "Simplify n = Some \<lparr>N = (if b < 0 then - a else a), D = \<bar>b\<bar>\<rparr>"
proof -
  let ?G = "gcd (N n) (D n)"
  have Gpos: "0 < ?G" using nz by (simp add: gcd_pos_int)
  then have "?G \<noteq> 0" by simp
  from gcd_coprime_exists[OF this] obtain a b where
    ab: "N n = a * ?G" "D n = b * ?G" "coprime a b" by blast
  have a0: "a \<noteq> 0" and b0: "b \<noteq> 0" using ab nz by auto
  have "(b * ?G < 0) = (b < 0)"
    using Gpos by (rule mult_pos_sign)
  then have sg: "D n < 0 \<longleftrightarrow> b < 0"
    using ab(2) by simp
  have d1: "N n div ?G = a" "(- N n) div ?G = - a"
    using Gpos ab(1) by (metis nonzero_mult_div_cancel_right less_irrefl,
       metis nonzero_mult_div_cancel_right less_irrefl mult_minus_left)
  have d2: "\<bar>D n\<bar> div ?G = \<bar>b\<bar>"
    using Gpos ab(2) by (metis abs_mult abs_of_pos nonzero_mult_div_cancel_right less_irrefl)
  have "Simplify n = Some \<lparr>N = (if b < 0 then - a else a), D = \<bar>b\<bar>\<rparr>"
    unfolding Simplify_nonzero[OF nz rng] using sg d1 d2 by simp
  with ab a0 b0 show ?thesis using that by blast
qed

lemma Simplify_core:
  assumes rng: "\<bar>N n\<bar> < 2 ^ 63" "\<bar>D n\<bar> < 2 ^ 63"
  shows "\<exists>x. Simplify n = Some x \<and> N x * D n = N n * D x
     \<and> (D n \<noteq> 0 \<longrightarrow> 0 < D x) \<and> (D n = 0 \<longrightarrow> x = n)
     \<and> (0 < D n \<longrightarrow> sgn (N x) = sgn (N n))
     \<and> (D n < 0 \<longrightarrow> sgn (N x) = - sgn (N n))
     \<and> (N n \<noteq> 0 \<and> D n \<noteq> 0 \<longrightarrow> coprime (N x) (D x))
     \<and> (N n = 0 \<longrightarrow> x = \<lparr>N = 0, D = \<bar>D n\<bar>\<rparr>)
     \<and> \<bar>N x\<bar> \<le> \<bar>N n\<bar> \<and> \<bar>D x\<bar> \<le> \<bar>D n\<bar>"
proof (cases "N n = 0")
  case True
  then show ?thesis using rng by (simp add: Simplify_zero_num)
next
  case nN: False
  show ?thesis
  proof (cases "D n = 0")
    case True
    then show ?thesis using nN rng by (simp add: Simplify_zero_den)
  next
    case False
    from Simplify_nonzero_coprime[OF nN False rng] obtain a b where
      ab: "N n = a * gcd (N n) (D n)" "D n = b * gcd (N n) (D n)" "coprime a b"
      "a \<noteq> 0" "b \<noteq> 0"
      "Simplify n = Some \<lparr>N = (if b < 0 then - a else a), D = \<bar>b\<bar>\<rparr>" by blast
    let ?G = "gcd (N n) (D n)"
    have Gpos: "0 < ?G" using nN by (simp add: gcd_pos_int)
    have c: "(if b < 0 then - a else a) * D n = N n * \<bar>b\<bar>"
      by (subst ab(2), subst (2) ab(1)) (simp add: abs_if)
    have "sgn ?G = 1" using Gpos by simp
    then have sN: "sgn (N n) = sgn a" by (subst ab(1)) (simp add: sgn_mult)
    have "(0 < b * ?G) = (0 < b)" "(b * ?G < 0) = (b < 0)"
      using Gpos by (rule mult_pos_sign)+
    then have sD: "0 < D n \<longleftrightarrow> 0 < b" "D n < 0 \<longleftrightarrow> b < 0"
      using ab(2) by simp_all
    have le: "\<bar>a\<bar> \<le> \<bar>N n\<bar>" "\<bar>b\<bar> \<le> \<bar>D n\<bar>"
      using abs_factor_le[OF Gpos, of a] abs_factor_le[OF Gpos, of b] ab(1,2) by simp_all
    show ?thesis
      unfolding ab(6) using c sN sD ab(3,4,5) nN False le by (auto simp: abs_if)
  qed
qed

lemma val_cross:
  assumes "D x \<noteq> 0" "D y \<noteq> 0"
  shows "val x = val y \<longleftrightarrow> N x * D y = N y * D x"
proof -
  have "val x = val y \<longleftrightarrow> (of_int (N x) :: rat) * of_int (D y) = of_int (N y) * of_int (D x)"
    using assms by (simp add: val_def frac_eq_eq)
  also have "\<dots> \<longleftrightarrow> (of_int (N x * D y) :: rat) = of_int (N y * D x)"
    by simp
  also have "\<dots> \<longleftrightarrow> N x * D y = N y * D x"
    by (simp only: of_int_eq_iff)
  finally show ?thesis .
qed

lemma Simplify_val:
  assumes "D n \<noteq> 0" and rng: "\<bar>N n\<bar> < 2 ^ 63" "\<bar>D n\<bar> < 2 ^ 63"
  obtains x where "Simplify n = Some x" "0 < D x" "val x = val n"
    "N n \<noteq> 0 \<Longrightarrow> coprime (N x) (D x)" "N n = 0 \<Longrightarrow> x = \<lparr>N = 0, D = \<bar>D n\<bar>\<rparr>"
    "0 < D n \<Longrightarrow> sgn (N x) = sgn (N n)"
    "\<bar>N x\<bar> \<le> \<bar>N n\<bar>" "\<bar>D x\<bar> \<le> \<bar>D n\<bar>"
proof -
  from Simplify_core[OF rng] obtain x where x: "Simplify n = Some x" "N x * D n = N n * D x"
    "D n \<noteq> 0 \<longrightarrow> 0 < D x" "0 < D n \<longrightarrow> sgn (N x) = sgn (N n)"
    "N n \<noteq> 0 \<and> D n \<noteq> 0 \<longrightarrow> coprime (N x) (D x)"
    "N n = 0 \<longrightarrow> x = \<lparr>N = 0, D = \<bar>D n\<bar>\<rparr>"
    "\<bar>N x\<bar> \<le> \<bar>N n\<bar>" "\<bar>D x\<bar> \<le> \<bar>D n\<bar>" by blast
  have pos: "0 < D x" using x(3) assms by simp
  then have "val x = val n" using x(2) assms by (simp add: val_cross)
  with x pos assms show ?thesis using that by blast
qed

lemma Simplify_total: "Simplify n \<noteq> None"
  using Simplify_Some [of n] by auto

lemma Add_total: "Add a b \<noteq> None" and Sub_total: "Sub a b \<noteq> None"
  and Mul_total: "Mul a b \<noteq> None" and Div_total: "Div a b \<noteq> None"
  and Neg_total: "Neg a \<noteq> None"
  by (simp_all add: Add_def Sub_def Mul_def Div_def Neg_def Simplify_total)

lemma abs_mult_le: "\<bar>x\<bar> \<le> X \<Longrightarrow> \<bar>y\<bar> \<le> Y \<Longrightarrow> \<bar>x * y\<bar> \<le> X * Y" for x y X Y :: int
  unfolding abs_mult by (rule mult_mono) simp_all

lemma Mul_val:
  assumes "D a \<noteq> 0" "D b \<noteq> 0"
    and rng: "\<bar>N a * N b\<bar> < 2 ^ 63" "\<bar>D a * D b\<bar> < 2 ^ 63"
  obtains q where "Mul a b = Some q" "0 < D q" "val q = val a * val b"
    "\<bar>N q\<bar> \<le> \<bar>N a * N b\<bar>" "\<bar>D q\<bar> \<le> \<bar>D a * D b\<bar>"
proof -
  let ?raw = "\<lparr>N = N a * N b, D = D a * D b\<rparr>"
  have raw: "Mul a b = Simplify ?raw" using rng by (simp add: Mul_def mul64_id)
  have "D ?raw \<noteq> 0" "\<bar>N ?raw\<bar> < 2 ^ 63" "\<bar>D ?raw\<bar> < 2 ^ 63" using assms by simp_all
  from Simplify_val[OF this] obtain q where q: "Simplify ?raw = Some q" "0 < D q" "val q = val ?raw"
    "\<bar>N q\<bar> \<le> \<bar>N ?raw\<bar>" "\<bar>D q\<bar> \<le> \<bar>D ?raw\<bar>"
    by blast
  have "val ?raw = val a * val b" by (simp add: val_def)
  with q raw show ?thesis using that by simp
qed

lemma Sub_val:
  assumes "D a \<noteq> 0" "D b \<noteq> 0"
    and rng: "\<bar>N a * D b\<bar> < 2 ^ 63" "\<bar>N b * D a\<bar> < 2 ^ 63"
      "\<bar>N a * D b - N b * D a\<bar> < 2 ^ 63" "\<bar>D a * D b\<bar> < 2 ^ 63"
  obtains q where "Sub a b = Some q" "0 < D q" "val q = val a - val b"
    "\<bar>N q\<bar> \<le> \<bar>N a * D b - N b * D a\<bar>" "\<bar>D q\<bar> \<le> \<bar>D a * D b\<bar>"
proof -
  let ?raw = "\<lparr>N = N a * D b - N b * D a, D = D a * D b\<rparr>"
  have raw: "Sub a b = Simplify ?raw"
    using rng by (simp add: Sub_def mul64_id sub64_def wrap_id)
  have "D ?raw \<noteq> 0" "\<bar>N ?raw\<bar> < 2 ^ 63" "\<bar>D ?raw\<bar> < 2 ^ 63" using assms by simp_all
  from Simplify_val[OF this] obtain q where q: "Simplify ?raw = Some q" "0 < D q" "val q = val ?raw"
    "\<bar>N q\<bar> \<le> \<bar>N ?raw\<bar>" "\<bar>D q\<bar> \<le> \<bar>D ?raw\<bar>"
    by blast
  have "val ?raw = val a - val b" using assms(1,2) by (simp add: val_def diff_frac_eq)
  with q raw show ?thesis using that by simp
qed

lemma Div_val:
  assumes "D a \<noteq> 0" "N b \<noteq> 0"
    and rng: "\<bar>N a * D b\<bar> < 2 ^ 63" "\<bar>D a * N b\<bar> < 2 ^ 63"
  obtains q where "Div a b = Some q" "0 < D q" "val q = val a / val b"
    "0 < D a \<Longrightarrow> 0 < N b \<Longrightarrow> 0 < D b \<Longrightarrow> sgn (N q) = sgn (N a)"
    "\<bar>N q\<bar> \<le> \<bar>N a * D b\<bar>" "\<bar>D q\<bar> \<le> \<bar>D a * N b\<bar>"
proof -
  let ?raw = "\<lparr>N = N a * D b, D = D a * N b\<rparr>"
  have raw: "Div a b = Simplify ?raw" using rng by (simp add: Div_def mul64_id)
  have "D ?raw \<noteq> 0" "\<bar>N ?raw\<bar> < 2 ^ 63" "\<bar>D ?raw\<bar> < 2 ^ 63" using assms by simp_all
  from Simplify_val[OF this] obtain q where q: "Simplify ?raw = Some q" "0 < D q" "val q = val ?raw"
    "0 < D ?raw \<Longrightarrow> sgn (N q) = sgn (N ?raw)"
    "\<bar>N q\<bar> \<le> \<bar>N ?raw\<bar>" "\<bar>D q\<bar> \<le> \<bar>D ?raw\<bar>"
    by blast
  have "val ?raw = val a / val b" by (simp add: val_def)
  moreover have "sgn (N q) = sgn (N a)" if "0 < D a" "0 < N b" "0 < D b"
    using q(4) that by (simp add: sgn_mult)
  ultimately show ?thesis using q raw that by simp
qed

lemma Neg_val:
  assumes "D a \<noteq> 0" and rng: "\<bar>N a\<bar> < 2 ^ 63" "\<bar>D a\<bar> < 2 ^ 63"
  obtains q where "Neg a = Some q" "0 < D q" "val q = - val a"
proof -
  have "D \<lparr>N = - 1, D = 1\<rparr> \<noteq> 0" by simp
  moreover have "\<bar>N a * N \<lparr>N = - 1, D = 1\<rparr>\<bar> < 2 ^ 63" "\<bar>D a * D \<lparr>N = - 1, D = 1\<rparr>\<bar> < 2 ^ 63"
    using rng by simp_all
  ultimately obtain q where
    "Mul a \<lparr>N = - 1, D = 1\<rparr> = Some q" "0 < D q" "val q = val a * val \<lparr>N = - 1, D = 1\<rparr>"
    using Mul_val[OF assms(1)] by blast
  then show ?thesis using that by (simp add: Neg_def val_def)
qed

lemma val_pos_iff: "0 < D x \<Longrightarrow> 0 < val x \<longleftrightarrow> 0 < N x"
  by (simp add: val_def zero_less_divide_iff)

lemma val_less_iff:
  assumes "0 < D x" "0 < D y"
  shows "val x < val y \<longleftrightarrow> N x * D y < N y * D x"
proof -
  have "val x < val y \<longleftrightarrow> (of_int (N x) :: rat) * of_int (D y) < of_int (N y) * of_int (D x)"
    using assms by (simp add: val_def divide_less_eq pos_less_divide_eq mult.commute)
  also have "\<dots> \<longleftrightarrow> (of_int (N x * D y) :: rat) < of_int (N y * D x)" by simp
  also have "\<dots> \<longleftrightarrow> N x * D y < N y * D x" by (simp only: of_int_less_iff)
  finally show ?thesis .
qed


section \<open>Properties of the tableau operations\<close>

lemma fold_select:
  fixes f :: "int \<times> 'a \<Rightarrow> nat \<Rightarrow> int \<times> 'a"
  assumes step: "\<And>st j. f st j = st \<or> (Q j \<and> fst (f st j) = int j)"
      and take: "\<And>st j. Q j \<Longrightarrow> fst st = - 1 \<Longrightarrow> fst (f st j) = int j"
  shows "fst (foldl f st js) = fst st \<or> (\<exists>j\<in>set js. Q j \<and> fst (foldl f st js) = int j)"
    and "fst st = - 1 \<Longrightarrow> fst (foldl f st js) = - 1 \<longleftrightarrow> (\<forall>j\<in>set js. \<not> Q j)"
proof -
  have A: "fst (foldl f st js) = fst st \<or> (\<exists>j\<in>set js. Q j \<and> fst (foldl f st js) = int j)"
    for st js
  proof (induction js arbitrary: st)
    case Nil
    then show ?case by simp
  next
    case (Cons j js)
    from Cons.IH[of "f st j"] step[of st j] show ?case by auto
  qed
  show "fst (foldl f st js) = fst st \<or> (\<exists>j\<in>set js. Q j \<and> fst (foldl f st js) = int j)"
    by (rule A)
  show "fst st = - 1 \<Longrightarrow> fst (foldl f st js) = - 1 \<longleftrightarrow> (\<forall>j\<in>set js. \<not> Q j)"
  proof (induction js arbitrary: st)
    case Nil
    then show ?case by simp
  next
    case (Cons j js)
    show ?case
    proof (cases "Q j")
      case True
      with take[OF True Cons.prems] have "fst (f st j) = int j" by simp
      with A[of "f st j" js] have "fst (foldl f (f st j) js) \<ge> 0" by auto
      with True show ?thesis by auto
    next
      case False
      with step[of st j] have "f st j = st" by simp
      with Cons False show ?thesis by simp
    qed
  qed
qed

lemma enter_step_cases:
  "enter_step t (length (Table t)) st j = st \<or>
   ((\<not> dirtX t ! j \<and> improving t j) \<and> fst (enter_step t (length (Table t)) st j) = int j)"
  by (cases st) (auto simp: enter_step_def improving_def)

lemma enter_step_take:
  "\<not> dirtX t ! j \<and> improving t j \<Longrightarrow> fst st = - 1 \<Longrightarrow>
   fst (enter_step t (length (Table t)) st j) = int j"
  by (cases st) (auto simp: enter_step_def improving_def)

lemma Pivot_enter_cases:
  "Pivot_enter t = - 1 \<or>
   (\<exists>j < ncols t - 1. \<not> dirtX t ! j \<and> improving t j \<and> Pivot_enter t = int j)"
  using fold_select(1)[of "enter_step t (length (Table t))" "\<lambda>j. \<not> dirtX t ! j \<and> improving t j"
      "(- 1, \<lparr>N = 0, D = 1\<rparr>)" "[0..<ncols t - 1]", OF enter_step_cases enter_step_take]
  by (auto simp: Pivot_enter_def Let_def ncols_def)

lemma Pivot_enter_none:
  "Pivot_enter t = - 1 \<longleftrightarrow> (\<forall>j < ncols t - 1. \<not> (\<not> dirtX t ! j \<and> improving t j))"
  using fold_select(2)[of "enter_step t (length (Table t))" "\<lambda>j. \<not> dirtX t ! j \<and> improving t j"
      "(- 1, \<lparr>N = 0, D = 1\<rparr>)" "[0..<ncols t - 1]", OF enter_step_cases enter_step_take]
  by (auto simp: Pivot_enter_def Let_def ncols_def)

lemma feas_step_cases:
  "feas_step t r st j = st \<or>
   ((N (Table t ! r ! j) < 0 \<and> \<not> dirtX t ! j) \<and> fst (feas_step t r st j) = int j)"
  by (cases st) (auto simp: feas_step_def)

lemma feas_step_take:
  "N (Table t ! r ! j) < 0 \<and> \<not> dirtX t ! j \<Longrightarrow> fst st = - 1 \<Longrightarrow>
   fst (feas_step t r st j) = int j"
  by (cases st) (auto simp: feas_step_def)

lemma leave_loop_total: "leave_loop t n s js st \<noteq> None"
proof (induction js arbitrary: st)
  case Nil
  then show ?case by simp
next
  case (Cons i js)
  obtain r mr where st: "st = (r, mr)" by (cases st)
  obtain q where q: "Div (Table t ! i ! (n - 1)) (Table t ! i ! s) = Some q"
    using Div_total[of "Table t ! i ! (n - 1)" "Table t ! i ! s"] by auto
  show ?case unfolding st using Cons.IH q by simp
qed

lemma leave_loop_cases:
  "leave_loop t n s js st = Some st' \<Longrightarrow>
   fst st' = fst st \<or>
   (\<exists>i\<in>set js. \<not> dirtY t ! i \<and> N (Table t ! i ! s) > 0 \<and> fst st' = int i)"
proof (induction js arbitrary: st)
  case Nil
  then show ?case by simp
next
  case (Cons i js)
  obtain r mr where st: "st = (r, mr)" by (cases st)
  show ?case using Cons.prems Cons.IH unfolding st
    by (fastforce split: if_splits option.splits)
qed

lemma leave_loop_none:
  "leave_loop t n s js st = Some st' \<Longrightarrow> fst st = - 1 \<Longrightarrow>
   fst st' = - 1 \<longleftrightarrow> (\<forall>i\<in>set js. \<not> (\<not> dirtY t ! i \<and> N (Table t ! i ! s) > 0))"
proof (induction js arbitrary: st)
  case Nil
  then show ?case by simp
next
  case (Cons i js)
  obtain r mr where st: "st = (r, mr)" by (cases st)
  show ?case
  proof (cases "\<not> dirtY t ! i \<and> N (Table t ! i ! s) > 0")
    case True
    obtain q where q: "Div (Table t ! i ! (n - 1)) (Table t ! i ! s) = Some q"
      using Div_total[of "Table t ! i ! (n - 1)" "Table t ! i ! s"] by auto
    from Cons.prems True q have "leave_loop t n s js (int i, q) = Some st'"
      unfolding st by simp
    from leave_loop_cases[OF this] have "fst st' \<ge> 0" by auto
    with True show ?thesis by auto
  next
    case False
    with Cons.prems have "leave_loop t n s js st = Some st'" unfolding st by auto
    from Cons.IH[OF this Cons.prems(2)] False show ?thesis by simp
  qed
qed

lemma Pivot_leave_Some:
  obtains r where "Pivot_leave t s = Some r"
    "r = - 1 \<or> (\<exists>i < nrows t - 1. \<not> dirtY t ! i \<and> N (Table t ! i ! s) > 0 \<and> r = int i)"
    "r = - 1 \<longleftrightarrow> (\<forall>i < nrows t - 1. \<not> (\<not> dirtY t ! i \<and> N (Table t ! i ! s) > 0))"
proof -
  let ?n = "length (Table t ! 0)" and ?L = "[0..<length (Table t) - 1]"
  obtain st' where st': "leave_loop t ?n s ?L (- 1, \<lparr>N = 0, D = 0\<rparr>) = Some st'"
    using leave_loop_total[of t ?n s ?L "(- 1, \<lparr>N = 0, D = 0\<rparr>)"] by auto
  have 1: "Pivot_leave t s = Some (fst st')"
    using st' by (simp add: Pivot_leave_def Let_def)
  have 2: "fst st' = - 1 \<or> (\<exists>i < nrows t - 1. \<not> dirtY t ! i \<and> N (Table t ! i ! s) > 0 \<and> fst st' = int i)"
    using leave_loop_cases[OF st'] by (auto simp: nrows_def)
  have 3: "fst st' = - 1 \<longleftrightarrow> (\<forall>i < nrows t - 1. \<not> (\<not> dirtY t ! i \<and> N (Table t ! i ! s) > 0))"
    using leave_loop_none[OF st'] by (auto simp: nrows_def)
  from 1 2 3 show ?thesis by (rule that)
qed

lemma Pivot_Some:
  obtains r s where "Pivot t = Some (r, s)"
    "(r = - 1 \<and> s = - 1) \<or>
     (\<exists>i j. r = int i \<and> s = int j \<and> Pivot_enter t = int j \<and> i < nrows t - 1 \<and> j < ncols t - 1 \<and>
        \<not> dirtY t ! i \<and> \<not> dirtX t ! j \<and> improving t j \<and> N (Table t ! i ! j) > 0)"
proof (cases "Pivot_enter t = - 1")
  case True
  then have "Pivot t = Some (- 1, - 1)" by (simp add: Pivot_def Let_def)
  then show ?thesis using that by blast
next
  case False
  with Pivot_enter_cases[of t] obtain j where
    j: "j < ncols t - 1" "\<not> dirtX t ! j" "improving t j" "Pivot_enter t = int j" by blast
  obtain r where r: "Pivot_leave t j = Some r"
    "r = - 1 \<or> (\<exists>i < nrows t - 1. \<not> dirtY t ! i \<and> N (Table t ! i ! j) > 0 \<and> r = int i)"
    by (rule Pivot_leave_Some)
  show ?thesis
  proof (cases "r = - 1")
    case True
    then have "Pivot t = Some (- 1, - 1)" using j(4) r(1) by (simp add: Pivot_def Let_def)
    then show ?thesis using that by blast
  next
    case False
    then have "Pivot t = Some (r, int j)" using j(4) r(1) by (simp add: Pivot_def Let_def)
    moreover from False r(2) obtain i where "i < nrows t - 1" "\<not> dirtY t ! i"
      "N (Table t ! i ! j) > 0" "r = int i" by blast
    ultimately show ?thesis using that j by blast
  qed
qed

lemma PivotForFeasibility_cases:
  obtains (norow) "PivotForFeasibility t = (- 1, - 1)"
      "\<forall>i < nrows t - 1. \<not> (N (Table t ! i ! (ncols t - 1)) < 0 \<and> \<not> dirtY t ! i)"
  | (nocol) i where "PivotForFeasibility t = (int i, - 1)" "i < nrows t - 1"
      "N (Table t ! i ! (ncols t - 1)) < 0" "\<not> dirtY t ! i"
      "\<forall>k < i. \<not> (N (Table t ! k ! (ncols t - 1)) < 0 \<and> \<not> dirtY t ! k)"
      "\<forall>j < ncols t - 1. \<not> (N (Table t ! i ! j) < 0 \<and> \<not> dirtX t ! j)"
  | (pivot) i j where "PivotForFeasibility t = (int i, int j)" "i < nrows t - 1"
      "N (Table t ! i ! (ncols t - 1)) < 0" "\<not> dirtY t ! i"
      "\<forall>k < i. \<not> (N (Table t ! k ! (ncols t - 1)) < 0 \<and> \<not> dirtY t ! k)"
      "j < ncols t - 1" "N (Table t ! i ! j) < 0" "\<not> dirtX t ! j"
proof -
  let ?P = "\<lambda>i. N (Table t ! i ! (ncols t - 1)) < 0 \<and> \<not> dirtY t ! i"
  let ?L = "[0..<nrows t - 1]"
  show ?thesis
  proof (cases "find ?P ?L")
    case None
    then have "PivotForFeasibility t = (- 1, - 1)"
      by (simp add: PivotForFeasibility_def Let_def nrows_def ncols_def)
    moreover from None have "\<forall>i < nrows t - 1. \<not> ?P i"
      by (auto simp: find_None_iff)
    ultimately show ?thesis by (rule norow)
  next
    case (Some i)
    then obtain k where k: "k < length ?L" "?P (?L ! k)" "i = ?L ! k" "\<forall>l < k. \<not> ?P (?L ! l)"
      by (auto simp: find_Some_iff)
    then have i: "i < nrows t - 1" "?P i" "\<forall>l < i. \<not> ?P l" by auto
    let ?s = "fst (foldl (feas_step t i) (- 1, \<lparr>N = 0, D = 1\<rparr>) [0..<ncols t - 1])"
    have P: "PivotForFeasibility t = (int i, ?s)"
      using Some by (simp add: PivotForFeasibility_def Let_def nrows_def ncols_def)
    note fs = fold_select[of "feas_step t i" "\<lambda>j. N (Table t ! i ! j) < 0 \<and> \<not> dirtX t ! j"
        "(- 1, \<lparr>N = 0, D = 1\<rparr>)" "[0..<ncols t - 1]", OF feas_step_cases feas_step_take]
    show ?thesis
    proof (cases "?s = - 1")
      case True
      with fs(2) have "\<forall>j < ncols t - 1. \<not> (N (Table t ! i ! j) < 0 \<and> \<not> dirtX t ! j)"
        by auto
      with True P i show ?thesis by (intro nocol[of i]) auto
    next
      case False
      with fs(1) obtain j where "j < ncols t - 1" "N (Table t ! i ! j) < 0" "\<not> dirtX t ! j" "?s = int j"
        by auto
      with P i show ?thesis by (intro pivot[of i j]) auto
    qed
  qed
qed

lemma those_map_Some:
  "(\<And>x. x \<in> set xs \<Longrightarrow> f x \<noteq> None) \<Longrightarrow> those (map f xs) = Some (map (\<lambda>x. the (f x)) xs)"
proof (induction xs)
  case Nil
  then show ?case by simp
next
  case (Cons a xs)
  from Cons.prems[of a] obtain y where y: "f a = Some y" by auto
  from Cons.IH Cons.prems have "those (map f xs) = Some (map (\<lambda>x. the (f x)) xs)" by simp
  with y show ?case by simp
qed

lemma fillElement_total: "fillElement a i j r s \<noteq> None"
proof -
  obtain t1 where t1: "Mul (Table a ! i ! j) (Table a ! r ! s) = Some t1"
    using Mul_total[of "Table a ! i ! j" "Table a ! r ! s"] by auto
  obtain t2 where t2: "Mul (Table a ! i ! s) (Table a ! r ! j) = Some t2"
    using Mul_total[of "Table a ! i ! s" "Table a ! r ! j"] by auto
  obtain d where d: "Sub t1 t2 = Some d" using Sub_total[of t1 t2] by auto
  show ?thesis using t1 t2 d Div_total[of d "Table a ! r ! s"]
    by (simp add: fillElement_def Let_def)
qed

lemma Transform_cell_total: "Transform_cell t r s i j \<noteq> None"
proof -
  obtain q where q: "Div (Table t ! i ! s) (Table t ! r ! s) = Some q"
    using Div_total[of "Table t ! i ! s" "Table t ! r ! s"] by auto
  show ?thesis using q Neg_total[of q] fillElement_total[of t i j r s]
      Div_total[of "\<lparr>N = 1, D = 1\<rparr>" "Table t ! r ! s"] Div_total[of "Table t ! r ! j" "Table t ! r ! s"]
    by (simp add: Transform_cell_def Let_def)
qed

lemma Transform_Some:
  assumes "0 \<le> r" "0 \<le> s" "nat r < nrows t" "nat s < ncols t"
  shows "Transform t r s =
    Some \<lparr>Table = map (\<lambda>i. map (\<lambda>j. the (Transform_cell t (nat r) (nat s) i j)) [0..<ncols t])
                       [0..<nrows t],
          dirtX = (dirtX t)[nat s := True],
          dirtY = (dirtY t)[nat r := True],
          RowNames = (RowNames t)[nat r := ColNames t ! nat s],
          ColNames = (ColNames t)[nat s := RowNames t ! nat r],
          IsMaximization = IsMaximization t\<rparr>"
proof -
  have row: "those (map (\<lambda>j. Transform_cell t (nat r) (nat s) i j) [0..<ncols t]) =
      Some (map (\<lambda>j. the (Transform_cell t (nat r) (nat s) i j)) [0..<ncols t])" for i
    by (rule those_map_Some) (rule Transform_cell_total)
  have "those (map (\<lambda>i. those (map (\<lambda>j. Transform_cell t (nat r) (nat s) i j) [0..<ncols t]))
          [0..<nrows t]) =
      Some (map (\<lambda>i. map (\<lambda>j. the (Transform_cell t (nat r) (nat s) i j)) [0..<ncols t])
          [0..<nrows t])"
    by (subst those_map_Some) (simp_all add: row)
  then show ?thesis using assms by (simp add: Transform_def nrows_def ncols_def)
qed

lemma Transform_None:
  "r < 0 \<or> s < 0 \<or> nrows t \<le> nat r \<or> ncols t \<le> nat s \<Longrightarrow> Transform t r s = None"
  unfolding Transform_def nrows_def ncols_def by (rule if_P)

lemma Transform_shape:
  assumes "0 \<le> r" "0 \<le> s" "nat r < nrows t" "nat s < ncols t" "Transform t r s = Some b"
  shows "nrows b = nrows t" "ncols b = ncols t"
    "\<And>i j. i < nrows t \<Longrightarrow> j < ncols t \<Longrightarrow>
        Transform_cell t (nat r) (nat s) i j = Some (Table b ! i ! j)"
    "dirtX b = (dirtX t)[nat s := True]" "dirtY b = (dirtY t)[nat r := True]"
    "RowNames b = (RowNames t)[nat r := ColNames t ! nat s]"
    "ColNames b = (ColNames t)[nat s := RowNames t ! nat r]"
    "IsMaximization b = IsMaximization t"
    "wf_tableau t \<Longrightarrow> wf_tableau b"
proof -
  from assms(5) have b: "b = \<lparr>Table = map (\<lambda>i. map (\<lambda>j. the (Transform_cell t (nat r) (nat s) i j)) [0..<ncols t])
                       [0..<nrows t],
          dirtX = (dirtX t)[nat s := True],
          dirtY = (dirtY t)[nat r := True],
          RowNames = (RowNames t)[nat r := ColNames t ! nat s],
          ColNames = (ColNames t)[nat s := RowNames t ! nat r],
          IsMaximization = IsMaximization t\<rparr>"
    unfolding Transform_Some[OF assms(1-4)] by simp
  have pos: "0 < nrows t" using assms(3) by simp
  have T: "Table b = map (\<lambda>i. map (\<lambda>j. the (Transform_cell t (nat r) (nat s) i j)) [0..<ncols t])
                       [0..<nrows t]"
    by (simp add: b)
  show nr: "nrows b = nrows t" by (simp add: nrows_def T)
  show nc: "ncols b = ncols t" using pos by (simp add: ncols_def T)
  show "Transform_cell t (nat r) (nat s) i j = Some (Table b ! i ! j)"
    if "i < nrows t" "j < ncols t" for i j
    using that Transform_cell_total[of t "nat r" "nat s" i j] by (auto simp: T)
  show dX: "dirtX b = (dirtX t)[nat s := True]" by (simp add: b)
  show dY: "dirtY b = (dirtY t)[nat r := True]" by (simp add: b)
  show rn: "RowNames b = (RowNames t)[nat r := ColNames t ! nat s]" by (simp add: b)
  show cn: "ColNames b = (ColNames t)[nat s := RowNames t ! nat r]" by (simp add: b)
  show "IsMaximization b = IsMaximization t" by (simp add: b)
  show "wf_tableau b" if "wf_tableau t"
  proof -
    have 1: "length (Table b) = length (Table t)" "length (Table b ! 0) = length (Table t ! 0)"
      using nr nc by (simp_all add: nrows_def ncols_def)
    have 2: "list_all (\<lambda>row. length row = length (Table t ! 0)) (Table b)"
      by (simp add: T list_all_iff ncols_def)
    have 3: "Table b \<noteq> []" using 1(1) that by (auto simp: wf_tableau_def)
    show ?thesis using that 2 3
      unfolding wf_tableau_def 1 dX dY rn cn by simp
  qed
qed

lemma list_all_upt: "list_all P [0..<k] \<longleftrightarrow> (\<forall>i < k. P i)"
  by (auto simp: list_all_iff)

lemma IsOptimal_iff: "IsOptimal t \<longleftrightarrow> (\<forall>j < ncols t - 1. \<not> improving t j)"
  unfolding IsOptimal_def Let_def improving_def ncols_def list_all_upt by (rule refl)

lemma IsFeasible_iff:
  "IsFeasible t \<longleftrightarrow> (\<forall>i < nrows t - 1. \<not> N (Table t ! i ! (ncols t - 1)) < 0)"
  unfolding IsFeasible_def Let_def nrows_def ncols_def list_all_upt by (rule refl)

lemma wf_row_length:
  assumes "wf_tableau t" "i < nrows t"
  shows "length (Table t ! i) = ncols t"
proof -
  from assms(1) have "list_all (\<lambda>row. length row = length (Table t ! 0)) (Table t)"
    unfolding wf_tableau_def by blast
  then have "\<forall>k < length (Table t). length (Table t ! k) = length (Table t ! 0)"
    by (simp only: list_all_length)
  with assms(2) show ?thesis unfolding nrows_def ncols_def by blast
qed

lemma positive_entry:
  assumes "wf_tableau t" "positive_denominators t" "i < nrows t" "j < ncols t"
  shows "0 < D (Table t ! i ! j)"
proof -
  from assms(2,3) have "list_all (\<lambda>x. 0 < D x) (Table t ! i)"
    unfolding positive_denominators_def nrows_def list_all_length [of _ "Table t"] by blast
  then have "\<forall>k < length (Table t ! i). 0 < D (Table t ! i ! k)"
    by (simp only: list_all_length)
  with assms(4) wf_row_length[OF assms(1,3)] show ?thesis by simp
qed

lemma bounded_entry:
  assumes "wf_tableau t" "entries_within B t" "i < nrows t" "j < ncols t"
  shows "bounded_by B (Table t ! i ! j)"
proof -
  from assms(2,3) have "list_all (bounded_by B) (Table t ! i)"
    unfolding entries_within_def nrows_def list_all_length [of _ "Table t"] by blast
  then have "\<forall>k < length (Table t ! i). bounded_by B (Table t ! i ! k)"
    by (simp only: list_all_length)
  with assms(4) wf_row_length[OF assms(1,3)] show ?thesis by simp
qed

lemma bound_chain:
  fixes B :: int
  assumes "1 \<le> B" "2 * B ^ 5 < 2 ^ 63"
  shows "B < 2 ^ 63" "B * B < 2 ^ 63" "(B * B) * (B * B) < 2 ^ 63"
    "2 * ((B * B) * (B * B)) < 2 ^ 63" "(B * B) * (B * B) * B < 2 ^ 63"
    "2 * ((B * B) * (B * B)) * B < 2 ^ 63"
proof -
  have p: "B ^ 1 \<le> B ^ 5" "B ^ 2 \<le> B ^ 5" "B ^ 4 \<le> B ^ 5"
    using assms(1) by (intro power_increasing; simp)+
  have e: "B * B = B ^ 2" "(B * B) * (B * B) = B ^ 4"
    by (simp_all add: eval_nat_numeral)
  have e5: "(B * B) * (B * B) * B = B ^ 5" "2 * ((B * B) * (B * B)) * B = 2 * B ^ 5"
    by (simp_all add: eval_nat_numeral)
  have pos: "0 \<le> B ^ 5" using assms(1) by simp
  have q: "2 * B ^ 4 \<le> 2 * B ^ 5" using p(3) by simp
  show "B < 2 ^ 63" using p(1) pos assms(2) by simp
  show "B * B < 2 ^ 63" unfolding e using p(2) pos assms(2) by simp
  show "(B * B) * (B * B) < 2 ^ 63" unfolding e using p(3) pos assms(2) by simp
  show "2 * ((B * B) * (B * B)) < 2 ^ 63" unfolding e using q assms(2) by simp
  show "(B * B) * (B * B) * B < 2 ^ 63" unfolding e5 using pos assms(2) by simp
  show "2 * ((B * B) * (B * B)) * B < 2 ^ 63" unfolding e5 using assms(2) by simp
qed

lemma bounded_by_pos: "bounded_by B x \<Longrightarrow> D x \<noteq> 0 \<or> N x \<noteq> 0 \<Longrightarrow> 1 \<le> B"
  unfolding bounded_by_def by auto

lemma abs_diff_le: "\<bar>x\<bar> \<le> X \<Longrightarrow> \<bar>y\<bar> \<le> X \<Longrightarrow> \<bar>x - y\<bar> \<le> 2 * X" for x y X :: int
  by simp

lemma fillElement_val:
  assumes bd: "bounded_by B (Table a ! i ! j)" "bounded_by B (Table a ! i ! s)"
      "bounded_by B (Table a ! r ! j)" "bounded_by B (Table a ! r ! s)"
    and B: "2 * B ^ 5 < 2 ^ 63"
    and nz: "D (Table a ! i ! j) \<noteq> 0" "D (Table a ! i ! s) \<noteq> 0" "D (Table a ! r ! j) \<noteq> 0"
    "D (Table a ! r ! s) \<noteq> 0" "N (Table a ! r ! s) \<noteq> 0"
  obtains q where "fillElement a i j r s = Some q" "0 < D q"
    "val q = (val (Table a ! i ! j) * val (Table a ! r ! s)
              - val (Table a ! i ! s) * val (Table a ! r ! j)) / val (Table a ! r ! s)"
proof -
  let ?p = "Table a ! r ! s" and ?x = "Table a ! i ! j"
  let ?c = "Table a ! i ! s" and ?e = "Table a ! r ! j"
  let ?K = "B * B"
  have B1: "1 \<le> B" using bounded_by_pos[OF bd(4)] nz(4) by simp
  note ch = bound_chain[OF B1 B]
  have ab: "\<bar>N ?x\<bar> \<le> B" "\<bar>D ?x\<bar> \<le> B" "\<bar>N ?c\<bar> \<le> B" "\<bar>D ?c\<bar> \<le> B"
    "\<bar>N ?e\<bar> \<le> B" "\<bar>D ?e\<bar> \<le> B" "\<bar>N ?p\<bar> \<le> B" "\<bar>D ?p\<bar> \<le> B"
    using bd unfolding bounded_by_def by simp_all
  have m1: "\<bar>N ?x * N ?p\<bar> \<le> ?K" "\<bar>D ?x * D ?p\<bar> \<le> ?K"
    using ab by (intro abs_mult_le; simp)+
  then have "\<bar>N ?x * N ?p\<bar> < 2 ^ 63" "\<bar>D ?x * D ?p\<bar> < 2 ^ 63" using ch(2) by simp_all
  from Mul_val[OF nz(1,4) this] obtain t1 where
    t1: "Mul ?x ?p = Some t1" "0 < D t1" "val t1 = val ?x * val ?p"
    "\<bar>N t1\<bar> \<le> \<bar>N ?x * N ?p\<bar>" "\<bar>D t1\<bar> \<le> \<bar>D ?x * D ?p\<bar>"
    by blast
  have b1: "\<bar>N t1\<bar> \<le> ?K" "\<bar>D t1\<bar> \<le> ?K" using t1(4,5) m1 by simp_all
  have m2: "\<bar>N ?c * N ?e\<bar> \<le> ?K" "\<bar>D ?c * D ?e\<bar> \<le> ?K"
    using ab by (intro abs_mult_le; simp)+
  then have "\<bar>N ?c * N ?e\<bar> < 2 ^ 63" "\<bar>D ?c * D ?e\<bar> < 2 ^ 63" using ch(2) by simp_all
  from Mul_val[OF nz(2,3) this] obtain t2 where
    t2: "Mul ?c ?e = Some t2" "0 < D t2" "val t2 = val ?c * val ?e"
    "\<bar>N t2\<bar> \<le> \<bar>N ?c * N ?e\<bar>" "\<bar>D t2\<bar> \<le> \<bar>D ?c * D ?e\<bar>"
    by blast
  have b2: "\<bar>N t2\<bar> \<le> ?K" "\<bar>D t2\<bar> \<le> ?K" using t2(4,5) m2 by simp_all
  have s1: "\<bar>N t1 * D t2\<bar> \<le> ?K * ?K" "\<bar>N t2 * D t1\<bar> \<le> ?K * ?K" "\<bar>D t1 * D t2\<bar> \<le> ?K * ?K"
    using b1 b2 by (intro abs_mult_le; simp)+
  have s2: "\<bar>N t1 * D t2 - N t2 * D t1\<bar> \<le> 2 * (?K * ?K)"
    using s1(1,2) by (rule abs_diff_le)
  have "D t1 \<noteq> 0" "D t2 \<noteq> 0" using t1(2) t2(2) by simp_all
  moreover have "\<bar>N t1 * D t2\<bar> < 2 ^ 63" "\<bar>N t2 * D t1\<bar> < 2 ^ 63"
    "\<bar>N t1 * D t2 - N t2 * D t1\<bar> < 2 ^ 63" "\<bar>D t1 * D t2\<bar> < 2 ^ 63"
    using s1 s2 ch(3,4) by simp_all
  ultimately obtain d where d: "Sub t1 t2 = Some d" "0 < D d" "val d = val t1 - val t2"
    "\<bar>N d\<bar> \<le> \<bar>N t1 * D t2 - N t2 * D t1\<bar>" "\<bar>D d\<bar> \<le> \<bar>D t1 * D t2\<bar>"
    by (rule Sub_val)
  have bd': "\<bar>N d\<bar> \<le> 2 * (?K * ?K)" "\<bar>D d\<bar> \<le> ?K * ?K" using d(4,5) s1(3) s2 by simp_all
  have q1: "\<bar>N d * D ?p\<bar> \<le> 2 * (?K * ?K) * B" "\<bar>D d * N ?p\<bar> \<le> ?K * ?K * B"
    using bd' ab(7,8) by (intro abs_mult_le; simp)+
  have "D d \<noteq> 0" using d(2) by simp
  moreover note nz(5)
  moreover have "\<bar>N d * D ?p\<bar> < 2 ^ 63" "\<bar>D d * N ?p\<bar> < 2 ^ 63"
    using q1 ch(5,6) by simp_all
  ultimately obtain q where q: "Div d ?p = Some q" "0 < D q" "val q = val d / val ?p"
    by (rule Div_val)
  have "fillElement a i j r s = Some q"
    using t1(1) t2(1) d(1) q(1) by (simp add: fillElement_def Let_def)
  moreover have "val q = (val ?x * val ?p - val ?c * val ?e) / val ?p"
    using q(3) d(3) t1(3) t2(3) by simp
  ultimately show ?thesis using q(2) that by blast
qed

lemma Transform_pivot_val:
  assumes bd: "bounded_by B (Table t ! r ! s)" and B: "B < 2 ^ 63"
    and nz: "N (Table t ! r ! s) \<noteq> 0"
  obtains q where "Transform_cell t r s r s = Some q" "0 < D q"
    "val q = 1 / val (Table t ! r ! s)"
proof -
  let ?p = "Table t ! r ! s"
  have "D \<lparr>N = 1, D = 1\<rparr> \<noteq> 0" by simp
  moreover note nz
  moreover have "\<bar>N \<lparr>N = 1, D = 1\<rparr> * D ?p\<bar> < 2 ^ 63" "\<bar>D \<lparr>N = 1, D = 1\<rparr> * N ?p\<bar> < 2 ^ 63"
    using bd B unfolding bounded_by_def by simp_all
  ultimately obtain q where
    "Div \<lparr>N = 1, D = 1\<rparr> ?p = Some q" "0 < D q" "val q = val \<lparr>N = 1, D = 1\<rparr> / val ?p"
    by (rule Div_val)
  then show ?thesis by (intro that[of q]) (simp_all add: Transform_cell_def val_def)
qed

lemma Div_cells:
  assumes bd: "bounded_by B x" "bounded_by B p" and B: "B * B < 2 ^ 63"
    and nz: "D x \<noteq> 0" "N p \<noteq> 0"
  obtains q where "Div x p = Some q" "0 < D q" "val q = val x / val p"
    "\<bar>N q\<bar> < 2 ^ 63" "\<bar>D q\<bar> < 2 ^ 63"
    "0 < D x \<Longrightarrow> 0 < N p \<Longrightarrow> 0 < D p \<Longrightarrow> sgn (N q) = sgn (N x)"
    "bounded_by (B * B) q"
proof -
  have ab: "\<bar>N x\<bar> \<le> B" "\<bar>D x\<bar> \<le> B" "\<bar>N p\<bar> \<le> B" "\<bar>D p\<bar> \<le> B"
    using bd unfolding bounded_by_def by simp_all
  have m: "\<bar>N x * D p\<bar> \<le> B * B" "\<bar>D x * N p\<bar> \<le> B * B"
    using ab by (intro abs_mult_le; simp)+
  then have "\<bar>N x * D p\<bar> < 2 ^ 63" "\<bar>D x * N p\<bar> < 2 ^ 63" using B by simp_all
  from Div_val[OF nz this] obtain q where q: "Div x p = Some q" "0 < D q" "val q = val x / val p"
    "0 < D x \<Longrightarrow> 0 < N p \<Longrightarrow> 0 < D p \<Longrightarrow> sgn (N q) = sgn (N x)"
    "\<bar>N q\<bar> \<le> \<bar>N x * D p\<bar>" "\<bar>D q\<bar> \<le> \<bar>D x * N p\<bar>" by blast
  have "\<bar>N q\<bar> \<le> B * B" "\<bar>D q\<bar> \<le> B * B" using q(5,6) m by simp_all
  then have "\<bar>N q\<bar> < 2 ^ 63" "\<bar>D q\<bar> < 2 ^ 63" "bounded_by (B * B) q"
    using B by (simp_all add: bounded_by_def)
  with q(1-4) show ?thesis using that by blast
qed

lemma Transform_row_val:
  assumes bd: "bounded_by B (Table t ! r ! j)" "bounded_by B (Table t ! r ! s)"
    and B: "B * B < 2 ^ 63"
    and nz: "D (Table t ! r ! j) \<noteq> 0" "N (Table t ! r ! s) \<noteq> 0" and j: "j \<noteq> s"
  obtains q where "Transform_cell t r s r j = Some q" "0 < D q"
    "val q = val (Table t ! r ! j) / val (Table t ! r ! s)"
proof -
  from Div_cells[OF bd B nz] obtain q where
    "Div (Table t ! r ! j) (Table t ! r ! s) = Some q" "0 < D q"
    "val q = val (Table t ! r ! j) / val (Table t ! r ! s)" by blast
  with j show ?thesis by (intro that[of q]) (simp_all add: Transform_cell_def)
qed

lemma Transform_col_val:
  assumes bd: "bounded_by B (Table t ! i ! s)" "bounded_by B (Table t ! r ! s)"
    and B: "B * B < 2 ^ 63"
    and nz: "D (Table t ! i ! s) \<noteq> 0" "N (Table t ! r ! s) \<noteq> 0" and i: "i \<noteq> r"
  obtains q where "Transform_cell t r s i s = Some q" "0 < D q"
    "val q = - val (Table t ! i ! s) / val (Table t ! r ! s)"
proof -
  from Div_cells[OF bd B nz] obtain q where
    q: "Div (Table t ! i ! s) (Table t ! r ! s) = Some q" "0 < D q"
    "val q = val (Table t ! i ! s) / val (Table t ! r ! s)"
    "\<bar>N q\<bar> < 2 ^ 63" "\<bar>D q\<bar> < 2 ^ 63" by blast
  have "D q \<noteq> 0" using q(2) by simp
  from Neg_val[OF this q(4,5)] obtain q' where "Neg q = Some q'" "0 < D q'" "val q' = - val q"
    by blast
  with i q show ?thesis by (intro that[of q']) (simp_all add: Transform_cell_def)
qed

lemma Transform_rest_val:
  assumes bd: "bounded_by B (Table t ! i ! j)" "bounded_by B (Table t ! i ! s)"
      "bounded_by B (Table t ! r ! j)" "bounded_by B (Table t ! r ! s)"
    and B: "2 * B ^ 5 < 2 ^ 63"
    and nz: "D (Table t ! i ! j) \<noteq> 0" "D (Table t ! i ! s) \<noteq> 0" "D (Table t ! r ! j) \<noteq> 0"
    "D (Table t ! r ! s) \<noteq> 0" "N (Table t ! r ! s) \<noteq> 0" and ij: "i \<noteq> r" "j \<noteq> s"
  obtains q where "Transform_cell t r s i j = Some q" "0 < D q"
    "val q = (val (Table t ! i ! j) * val (Table t ! r ! s)
              - val (Table t ! i ! s) * val (Table t ! r ! j)) / val (Table t ! r ! s)"
proof -
  from fillElement_val[OF bd B nz] obtain q where "fillElement t i j r s = Some q" "0 < D q"
      "val q = (val (Table t ! i ! j) * val (Table t ! r ! s)
              - val (Table t ! i ! s) * val (Table t ! r ! j)) / val (Table t ! r ! s)" by blast
  with ij show ?thesis by (intro that[of q]) (simp_all add: Transform_cell_def)
qed

lemma spr_skip:
  "\<not> c k \<Longrightarrow> smallest_positive_ratio c \<rho> k r \<Longrightarrow> smallest_positive_ratio c \<rho> (Suc k) r"
  unfolding smallest_positive_ratio_def less_Suc_eq by (auto split: if_splits)

lemma spr_first:
  "c k \<Longrightarrow> \<forall>i < k. \<not> c i \<Longrightarrow> smallest_positive_ratio c \<rho> (Suc k) k"
  unfolding smallest_positive_ratio_def less_Suc_eq by auto

lemma spr_take:
  assumes "c k" "smallest_positive_ratio c \<rho> k r" "0 < \<rho> k" "\<not> 0 < \<rho> r \<or> \<rho> k < \<rho> r"
  shows "smallest_positive_ratio c \<rho> (Suc k) k"
proof (cases "\<exists>i < k. c i \<and> 0 < \<rho> i")
  case True
  with assms(2) have r: "0 < \<rho> r" "\<forall>i < k. c i \<and> 0 < \<rho> i \<longrightarrow> \<rho> r \<le> \<rho> i"
    unfolding smallest_positive_ratio_def by auto
  with assms(4) have "\<rho> k < \<rho> r" by simp
  with r(2) have "\<forall>i < k. c i \<and> 0 < \<rho> i \<longrightarrow> \<rho> k < \<rho> i" by fastforce
  with assms(1,3) show ?thesis
    unfolding smallest_positive_ratio_def less_Suc_eq by auto
next
  case False
  with assms(1,3) show ?thesis
    unfolding smallest_positive_ratio_def less_Suc_eq by auto
qed

lemma spr_keep:
  assumes "c k" "smallest_positive_ratio c \<rho> k r" "\<not> (0 < \<rho> k \<and> (\<not> 0 < \<rho> r \<or> \<rho> k < \<rho> r))"
  shows "smallest_positive_ratio c \<rho> (Suc k) r"
proof (cases "0 < \<rho> k")
  case False
  with assms(2) show ?thesis
    unfolding smallest_positive_ratio_def less_Suc_eq by (auto split: if_splits)
next
  case True
  with assms(3) have r: "0 < \<rho> r" "\<rho> r \<le> \<rho> k" by auto
  from assms(2) have rk: "r < k" "c r" unfolding smallest_positive_ratio_def by auto
  with r(1) have ex: "\<exists>i < k. c i \<and> 0 < \<rho> i" by blast
  with assms(2) have "\<forall>i < k. c i \<and> 0 < \<rho> i \<longrightarrow> \<rho> r \<le> \<rho> i \<and> (i < r \<longrightarrow> \<rho> r < \<rho> i)"
    unfolding smallest_positive_ratio_def by simp
  with r rk show ?thesis
    unfolding smallest_positive_ratio_def less_Suc_eq by auto
qed

lemma leave_loop_skip:
  "\<not> (\<not> dirtY t ! i \<and> N (Table t ! i ! s) > 0) \<Longrightarrow>
   leave_loop t n s (i # rest) (r, mr) = leave_loop t n s rest (r, mr)"
  by auto

lemma leave_loop_take:
  "\<not> dirtY t ! i \<and> N (Table t ! i ! s) > 0 \<Longrightarrow>
   Div (Table t ! i ! (n - 1)) (Table t ! i ! s) = Some q \<Longrightarrow>
   r = - 1 \<or> (N q > 0 \<and> (N mr \<le> 0 \<or> mul64 (N q) (D mr) < mul64 (N mr) (D q))) \<Longrightarrow>
   leave_loop t n s (i # rest) (r, mr) = leave_loop t n s rest (int i, q)"
  by auto

lemma leave_loop_keep:
  "\<not> dirtY t ! i \<and> N (Table t ! i ! s) > 0 \<Longrightarrow>
   Div (Table t ! i ! (n - 1)) (Table t ! i ! s) = Some q \<Longrightarrow>
   \<not> (r = - 1 \<or> (N q > 0 \<and> (N mr \<le> 0 \<or> mul64 (N q) (D mr) < mul64 (N mr) (D q)))) \<Longrightarrow>
   leave_loop t n s (i # rest) (r, mr) = leave_loop t n s rest (r, mr)"
  by auto

lemma leave_loop_append:
  "leave_loop t n s (xs @ ys) st =
     (case leave_loop t n s xs st of None \<Rightarrow> None | Some st' \<Rightarrow> leave_loop t n s ys st')"
proof (induction xs arbitrary: st)
  case Nil
  then show ?case by simp
next
  case (Cons i xs)
  obtain r mr where st: "st = (r, mr)" by (cases st)
  obtain q where q: "Div (Table t ! i ! (n - 1)) (Table t ! i ! s) = Some q"
    using Div_total[of "Table t ! i ! (n - 1)" "Table t ! i ! s"] by auto
  show ?case
  proof (cases "\<not> dirtY t ! i \<and> N (Table t ! i ! s) > 0")
    case False
    have "leave_loop t n s ((i # xs) @ ys) (r, mr) = leave_loop t n s (xs @ ys) (r, mr)"
      using leave_loop_skip[OF False, of n "xs @ ys"] by simp
    moreover have "leave_loop t n s (i # xs) (r, mr) = leave_loop t n s xs (r, mr)"
      by (rule leave_loop_skip[OF False])
    ultimately show ?thesis unfolding st using Cons.IH[of "(r, mr)"] by simp
  next
    case c: True
    show ?thesis
    proof (cases "r = - 1 \<or> (N q > 0 \<and> (N mr \<le> 0 \<or> mul64 (N q) (D mr) < mul64 (N mr) (D q)))")
      case True
      have "leave_loop t n s ((i # xs) @ ys) (r, mr) = leave_loop t n s (xs @ ys) (int i, q)"
        using leave_loop_take[OF c q True, of "xs @ ys"] by simp
      moreover have "leave_loop t n s (i # xs) (r, mr) = leave_loop t n s xs (int i, q)"
        by (rule leave_loop_take[OF c q True])
      ultimately show ?thesis unfolding st using Cons.IH[of "(int i, q)"] by simp
    next
      case False
      have "leave_loop t n s ((i # xs) @ ys) (r, mr) = leave_loop t n s (xs @ ys) (r, mr)"
        using leave_loop_keep[OF c q False, of "xs @ ys"] by simp
      moreover have "leave_loop t n s (i # xs) (r, mr) = leave_loop t n s xs (r, mr)"
        by (rule leave_loop_keep[OF c q False])
      ultimately show ?thesis unfolding st using Cons.IH[of "(r, mr)"] by simp
    qed
  qed
qed

lemma ratio_bounds:
  fixes B :: int
  assumes "1 \<le> B" "B ^ 4 < 2 ^ 63"
  shows "B * B < 2 ^ 63" "(B * B) * (B * B) < 2 ^ 63"
proof -
  have p: "B ^ 2 \<le> B ^ 4" using assms(1) by (intro power_increasing; simp)
  have e: "B * B = B ^ 2" "(B * B) * (B * B) = B ^ 4"
    by (simp_all add: eval_nat_numeral)
  show "B * B < 2 ^ 63" unfolding e using p assms(2) by simp
  show "(B * B) * (B * B) < 2 ^ 63" unfolding e using assms(2) by simp
qed

lemma leave_loop_inv:
  assumes wf: "wf_tableau t" and pd: "positive_denominators t"
    and ew: "entries_within B t" and B: "B ^ 4 < 2 ^ 63"
    and s: "s < ncols t" and k: "k \<le> nrows t - 1"
  shows "\<exists>r mr. leave_loop t (ncols t) s [0..<k] (- 1, \<lparr>N = 0, D = 0\<rparr>) = Some (r, mr) \<and>
     ((\<forall>i < k. \<not> candidate t s i) \<longrightarrow> r = - 1) \<and>
     ((\<exists>i < k. candidate t s i) \<longrightarrow>
        (\<exists>j. r = int j \<and> smallest_positive_ratio (candidate t s) (ratio t s) k j \<and>
             0 < D mr \<and> val mr = ratio t s j \<and> bounded_by (B * B) mr))"
  using k
proof (induction k)
  case 0
  then show ?case by simp
next
  case (Suc k)
  then have klt: "k < nrows t - 1" and kle: "k \<le> nrows t - 1" by simp_all
  from Suc.IH[OF kle] obtain r mr where
    st: "leave_loop t (ncols t) s [0..<k] (- 1, \<lparr>N = 0, D = 0\<rparr>) = Some (r, mr)"
    and none: "(\<forall>i < k. \<not> candidate t s i) \<longrightarrow> r = - 1"
    and some: "(\<exists>i < k. candidate t s i) \<longrightarrow>
        (\<exists>j. r = int j \<and> smallest_positive_ratio (candidate t s) (ratio t s) k j \<and>
             0 < D mr \<and> val mr = ratio t s j \<and> bounded_by (B * B) mr)"
    by blast
  let ?rhs = "Table t ! k ! (ncols t - 1)" and ?e = "Table t ! k ! s"
  have run: "leave_loop t (ncols t) s [0..<Suc k] (- 1, \<lparr>N = 0, D = 0\<rparr>) =
      leave_loop t (ncols t) s [k] (r, mr)"
    using st by (simp add: leave_loop_append)
  show ?case
  proof (cases "candidate t s k")
    case False
    then have "leave_loop t (ncols t) s [k] (r, mr) = Some (r, mr)"
      using leave_loop_skip[of t k s "ncols t" "[]" r mr] by (simp add: candidate_def)
    moreover have "(\<forall>i < Suc k. \<not> candidate t s i) \<longleftrightarrow> (\<forall>i < k. \<not> candidate t s i)"
      using False by (auto simp: less_Suc_eq)
    moreover have "smallest_positive_ratio (candidate t s) (ratio t s) (Suc k) j"
      if "smallest_positive_ratio (candidate t s) (ratio t s) k j" for j
      using False that by (rule spr_skip)
    ultimately show ?thesis using run none some by auto
  next
    case c: True
    have kr: "k < nrows t" and nc: "ncols t - 1 < ncols t" using klt s by simp_all
    have Drhs: "D ?rhs \<noteq> 0" using positive_entry[OF wf pd kr nc] by simp
    have Ne: "N ?e \<noteq> 0" using c by (simp add: candidate_def)
    have be: "bounded_by B ?rhs" "bounded_by B ?e"
      using bounded_entry[OF wf ew kr] nc s by simp_all
    have B1: "1 \<le> B" using bounded_by_pos[OF be(2)] Ne by simp
    note rb = ratio_bounds[OF B1 B]
    from Div_cells[OF be rb(1) Drhs Ne] obtain q where
      q: "Div ?rhs ?e = Some q" "0 < D q" "val q = val ?rhs / val ?e"
      and bq: "bounded_by (B * B) q" by blast
    have vq: "val q = ratio t s k" using q(3) by (simp add: ratio_def)
    have c': "\<not> dirtY t ! k \<and> N (Table t ! k ! s) > 0" using c by (simp add: candidate_def)
    have posq: "0 < N q \<longleftrightarrow> 0 < ratio t s k"
      using val_pos_iff[OF q(2)] vq by simp
    show ?thesis
    proof (cases "\<exists>i < k. candidate t s i")
      case False
      with none have "r = - 1" by simp
      then have "leave_loop t (ncols t) s [k] (r, mr) = Some (int k, q)"
        using leave_loop_take[OF c' q(1), of r mr "[]"] by simp
      moreover have "smallest_positive_ratio (candidate t s) (ratio t s) (Suc k) k"
        using c False by (intro spr_first) auto
      ultimately show ?thesis using run q(2) vq c bq by auto
    next
      case True
      with some obtain j where j: "r = int j"
        "smallest_positive_ratio (candidate t s) (ratio t s) k j" "0 < D mr" "val mr = ratio t s j"
        "bounded_by (B * B) mr"
        by blast
      have posm: "N mr \<le> 0 \<longleftrightarrow> \<not> 0 < ratio t s j"
        using val_pos_iff[OF j(3)] j(4) by auto
      have ab: "\<bar>N q\<bar> \<le> B * B" "\<bar>D q\<bar> \<le> B * B" "\<bar>N mr\<bar> \<le> B * B" "\<bar>D mr\<bar> \<le> B * B"
        using bq j(5) unfolding bounded_by_def by simp_all
      have "\<bar>N q * D mr\<bar> \<le> (B * B) * (B * B)" "\<bar>N mr * D q\<bar> \<le> (B * B) * (B * B)"
        using ab by (intro abs_mult_le; simp)+
      then have "\<bar>N q * D mr\<bar> < 2 ^ 63" "\<bar>N mr * D q\<bar> < 2 ^ 63" using rb(2) by simp_all
      then have ex64: "mul64 (N q) (D mr) = N q * D mr" "mul64 (N mr) (D q) = N mr * D q"
        by (simp_all add: mul64_id)
      have lt: "mul64 (N q) (D mr) < mul64 (N mr) (D q) \<longleftrightarrow> ratio t s k < ratio t s j"
        unfolding ex64 using val_less_iff[OF q(2) j(3)] vq j(4) by simp
      have ex: "\<exists>i < Suc k. candidate t s i" using c by auto
      show ?thesis
      proof (cases "0 < ratio t s k \<and> (\<not> 0 < ratio t s j \<or> ratio t s k < ratio t s j)")
        case take: True
        then have "r = - 1 \<or> (N q > 0 \<and> (N mr \<le> 0 \<or> mul64 (N q) (D mr) < mul64 (N mr) (D q)))"
          using posq posm lt by simp
        then have "leave_loop t (ncols t) s [k] (r, mr) = Some (int k, q)"
          using leave_loop_take[OF c' q(1), of r mr "[]"] by simp
        moreover have "smallest_positive_ratio (candidate t s) (ratio t s) (Suc k) k"
          using c j(2) take by (intro spr_take[of _ _ _ j]) auto
        ultimately show ?thesis using run q(2) vq ex bq by auto
      next
        case keep: False
        then have "\<not> (r = - 1 \<or> (N q > 0 \<and> (N mr \<le> 0 \<or> mul64 (N q) (D mr) < mul64 (N mr) (D q))))"
          using posq posm lt j(1) by simp
        then have "leave_loop t (ncols t) s [k] (r, mr) = Some (r, mr)"
          using leave_loop_keep[OF c' q(1), of r mr "[]"] by simp
        moreover have "smallest_positive_ratio (candidate t s) (ratio t s) (Suc k) j"
          using c j(2) keep by (rule spr_keep)
        ultimately show ?thesis using run j ex by auto
      qed
    qed
  qed
qed

lemma foldl_same_update:
  assumes F: "\<And>sol j. F sol j = sol(k \<mapsto> v)"
  shows "xs \<noteq> [] \<Longrightarrow> foldl F sol xs = sol(k \<mapsto> v)"
proof (induction xs rule: rev_induct)
  case Nil
  then show ?case by simp
next
  case (snoc x xs)
  have step: "foldl F sol (xs @ [x]) = (foldl F sol xs)(k \<mapsto> v)"
    by (simp only: foldl_append foldl_Cons foldl_Nil F)
  show ?case
  proof (cases "xs = []")
    case True
    then show ?thesis unfolding step by simp
  next
    case False
    show ?thesis unfolding step snoc.IH[OF False] by simp
  qed
qed

lemma foldl_updates:
  assumes F: "\<And>sol i. F sol i = sol(f i \<mapsto> g i)"
  shows "k \<notin> f ` set xs \<Longrightarrow> foldl F sol xs k = sol k"
    and "distinct (map f xs) \<Longrightarrow> i \<in> set xs \<Longrightarrow> foldl F sol xs (f i) = Some (g i)"
    and "dom (foldl F sol xs) = dom sol \<union> f ` set xs"
proof -
  have step: "foldl F sol (ys @ [y]) = (foldl F sol ys)(f y \<mapsto> g y)" for ys y
    by (simp only: foldl_append foldl_Cons foldl_Nil F)
  show "k \<notin> f ` set xs \<Longrightarrow> foldl F sol xs k = sol k"
  proof (induction xs rule: rev_induct)
    case Nil
    then show ?case by simp
  next
    case (snoc x xs)
    then show ?case unfolding step by simp
  qed
  show "distinct (map f xs) \<Longrightarrow> i \<in> set xs \<Longrightarrow> foldl F sol xs (f i) = Some (g i)"
  proof (induction xs rule: rev_induct)
    case Nil
    then show ?case by simp
  next
    case (snoc x xs)
    show ?case
    proof (cases "i = x")
      case True
      then show ?thesis unfolding step by simp
    next
      case False
      with snoc.prems have i: "i \<in> set xs" and d: "distinct (map f xs)"
        and x: "f x \<notin> f ` set xs" by auto
      from i x have "f i \<noteq> f x" by (metis imageI)
      with snoc.IH[OF d i] show ?thesis unfolding step by simp
    qed
  qed
  show "dom (foldl F sol xs) = dom sol \<union> f ` set xs"
  proof (induction xs rule: rev_induct)
    case Nil
    then show ?case by simp
  next
    case (snoc x xs)
    have "dom (foldl F sol (xs @ [x])) = dom ((foldl F sol xs)(f x \<mapsto> g x))"
      by (rule arg_cong[OF step])
    also have "\<dots> = insert (f x) (dom (foldl F sol xs))"
      by simp
    finally show ?case using snoc by auto
  qed
qed

lemma foldl_default:
  assumes F: "\<And>sol j. F sol j = (if sol (c j) = None then sol(c j \<mapsto> z) else sol)"
  shows "sol k = Some v \<Longrightarrow> foldl F sol js k = Some v"
    and "sol k = None \<Longrightarrow> foldl F sol js k = (if k \<in> c ` set js then Some z else None)"
    and "dom (foldl F sol js) = dom sol \<union> c ` set js"
proof -
  have step: "foldl F sol (j # js) = foldl F (F sol j) js" for sol j js
    by (simp only: foldl_Cons)
  have F1: "F sol j k = Some v" if "sol k = Some v" for sol j v
    unfolding F using that by auto
  have F2: "F sol j k = Some z" if "sol k = None" "c j = k" for sol j
    unfolding F using that by auto
  have F3: "F sol j k = None" if "sol k = None" "c j \<noteq> k" for sol j
    unfolding F using that by auto
  have F4: "dom (F sol j) = dom sol \<union> {c j}" for sol j
    unfolding F by (auto split: if_splits)
  show keep: "sol k = Some v \<Longrightarrow> foldl F sol js k = Some v" for sol js v
  proof (induction js arbitrary: sol)
    case Nil
    then show ?case by simp
  next
    case (Cons j js)
    from Cons.IH[of "F sol j", OF F1[of sol v j, OF Cons.prems]] show ?case
      by (simp only: step)
  qed
  show "sol k = None \<Longrightarrow> foldl F sol js k = (if k \<in> c ` set js then Some z else None)"
  proof (induction js arbitrary: sol)
    case Nil
    then show ?case by simp
  next
    case (Cons j js)
    show ?case
    proof (cases "c j = k")
      case True
      from keep[of "F sol j" z js, OF F2[of sol j, OF Cons.prems True]] True show ?thesis
        by (simp only: step) simp
    next
      case False
      from Cons.IH[of "F sol j", OF F3[of sol j, OF Cons.prems False]] False show ?thesis
        by (simp only: step) auto
    qed
  qed
  show "dom (foldl F sol js) = dom sol \<union> c ` set js"
  proof (induction js arbitrary: sol)
    case Nil
    then show ?case by simp
  next
    case (Cons j js)
    from Cons.IH[of "F sol j"] F4[of sol j] show ?case by (simp only: step) auto
  qed
qed

lemma nth_upt_take: "k \<le> length xs \<Longrightarrow> map (\<lambda>i. xs ! i) [0..<k] = take k xs"
  by (simp add: list_eq_iff_nth_eq)

lemma PivotForFeasibility_valid:
  assumes "wf_tableau t"
    and "IsPivotValid (fst (PivotForFeasibility t)) (snd (PivotForFeasibility t))"
  obtains t' where
    "Transform t (fst (PivotForFeasibility t)) (snd (PivotForFeasibility t)) = Some t'"
    "wf_tableau t'"
proof (cases t rule: PivotForFeasibility_cases)
  case norow
  with assms(2) show ?thesis by (simp add: IsPivotValid_def)
next
  case (nocol i)
  with assms(2) show ?thesis by (simp add: IsPivotValid_def)
next
  case (pivot i j)
  have rng: "0 \<le> int i" "0 \<le> int j" "nat (int i) < nrows t" "nat (int j) < ncols t"
    using pivot(2,6) by simp_all
  then have "Transform t (int i) (int j) \<noteq> None" by (simp add: Transform_Some)
  then obtain t' where t': "Transform t (int i) (int j) = Some t'" by blast
  from Transform_shape(9)[OF rng t' assms(1)] have "wf_tableau t'" .
  with t' pivot(1) show ?thesis by (intro that[of t']) simp_all
qed

lemma MakeFeasible_loop_unfold:
  "MakeFeasible_loop t it =
     (if IsFeasible t then Some (True, t)
      else if \<not> IsPivotValid (fst (PivotForFeasibility t)) (snd (PivotForFeasibility t))
      then Some (False, t)
      else
        (case Transform t (fst (PivotForFeasibility t)) (snd (PivotForFeasibility t)) of
           None \<Rightarrow> None
         | Some t' \<Rightarrow>
             if it + 1 > 20 then Some (False, t') else MakeFeasible_loop t' (it + 1)))"
  by (subst MakeFeasible_loop.simps) (simp add: case_prod_beta)

lemma MakeFeasible_loop_outcome:
  assumes "wf_tableau t" "1 \<le> it" "it \<le> 20"
  shows "\<exists>k b t'. k \<le> 21 - it \<and> feas_pivots k t = Some t' \<and>
           MakeFeasible_loop t it = Some (b, t') \<and> wf_tableau t' \<and>
           (b \<longleftrightarrow> k < 21 - it \<and> IsFeasible t') \<and>
           (k < 21 - it \<and> \<not> IsFeasible t' \<longrightarrow>
              \<not> IsPivotValid (fst (PivotForFeasibility t')) (snd (PivotForFeasibility t')))"
  using assms
proof (induction "21 - it" arbitrary: t it)
  case 0
  then show ?case by simp
next
  case (Suc n)
  let ?r = "fst (PivotForFeasibility t)" and ?s = "snd (PivotForFeasibility t)"
  show ?case
  proof (cases "IsFeasible t")
    case True
    then have "MakeFeasible_loop t it = Some (True, t)"
      by (subst MakeFeasible_loop_unfold) simp
    with True Suc.prems show ?thesis
      by (intro exI[of _ 0] exI[of _ True] exI[of _ t]) simp
  next
    case nf: False
    show ?thesis
    proof (cases "IsPivotValid ?r ?s")
      case False
      with nf have "MakeFeasible_loop t it = Some (False, t)"
        by (subst MakeFeasible_loop_unfold) simp
      with nf False Suc.prems show ?thesis
        by (intro exI[of _ 0] exI[of _ False] exI[of _ t]) simp
    next
      case v: True
      from PivotForFeasibility_valid[OF Suc.prems(1) v] obtain t1 where
        t1: "Transform t ?r ?s = Some t1" "wf_tableau t1" by blast
      have fp: "feas_pivots (Suc k) t = feas_pivots k t1" for k
        using nf v t1(1) by simp
      show ?thesis
      proof (cases "it + 1 > 20")
        case True
        with nf v t1(1) have "MakeFeasible_loop t it = Some (False, t1)"
          by (subst MakeFeasible_loop_unfold) simp
        moreover from True Suc.prems have "21 - it = 1" by simp
        moreover have "feas_pivots 1 t = Some t1" using fp[of 0] by simp
        ultimately show ?thesis using t1(2)
          by (intro exI[of _ 1] exI[of _ False] exI[of _ t1]) simp
      next
        case False
        with nf v t1(1) have M: "MakeFeasible_loop t it = MakeFeasible_loop t1 (it + 1)"
          by (subst MakeFeasible_loop_unfold) simp
        from False have le: "1 \<le> it + 1" "it + 1 \<le> 20" by simp_all
        from Suc.hyps(2) have "n = 21 - (it + 1)" by simp
        from Suc.hyps(1)[OF this t1(2) le] obtain k b t' where
          k: "k \<le> 21 - (it + 1)" "feas_pivots k t1 = Some t'"
          "MakeFeasible_loop t1 (it + 1) = Some (b, t')" "wf_tableau t'"
          "b \<longleftrightarrow> k < 21 - (it + 1) \<and> IsFeasible t'"
          "k < 21 - (it + 1) \<and> \<not> IsFeasible t' \<longrightarrow>
              \<not> IsPivotValid (fst (PivotForFeasibility t')) (snd (PivotForFeasibility t'))"
          by auto
        from k(1,5,6) False have "Suc k \<le> 21 - it"
          "b \<longleftrightarrow> Suc k < 21 - it \<and> IsFeasible t'"
          "Suc k < 21 - it \<and> \<not> IsFeasible t' \<longrightarrow>
              \<not> IsPivotValid (fst (PivotForFeasibility t')) (snd (PivotForFeasibility t'))"
          by auto
        with k(2,3,4) M fp[of k] show ?thesis
          by (intro exI[of _ "Suc k"] exI[of _ b] exI[of _ t']) simp
      qed
    qed
  qed
qed

lemma MakeFeasible_loop_cap:
  "feas_pivots k t = Some t' \<Longrightarrow> 1 \<le> k \<Longrightarrow> it + k = 21 \<Longrightarrow>
   MakeFeasible_loop t it = Some (False, t')"
proof (induction k arbitrary: t it)
  case 0
  then show ?case by simp
next
  case (Suc k)
  let ?r = "fst (PivotForFeasibility t)" and ?s = "snd (PivotForFeasibility t)"
  from Suc.prems(1) have nf: "\<not> IsFeasible t" and v: "IsPivotValid ?r ?s"
    by (auto split: if_splits)
  with Suc.prems(1) obtain t1 where t1: "Transform t ?r ?s = Some t1" "feas_pivots k t1 = Some t'"
    by (auto split: option.splits)
  show ?case
  proof (cases "k = 0")
    case True
    with Suc.prems(3) have "it + 1 > 20" by simp
    with nf v t1 True show ?thesis by (subst MakeFeasible_loop_unfold) simp
  next
    case False
    with Suc.prems(3) have "\<not> it + 1 > 20" "1 \<le> k" "it + 1 + k = 21" by simp_all
    with Suc.IH[OF t1(2), of "it + 1"] nf v t1(1) show ?thesis
      by (subst MakeFeasible_loop_unfold) simp
  qed
qed

lemma twenty_cell:
  "a < 21 \<Longrightarrow> b < 21 \<Longrightarrow>
   twenty_grid i ! a ! b =
     (if a < 20 \<and> b = a then frac (- 1) 1
      else if a < 20 \<and> b = 20 then (if a < i then frac 1 1 else frac (- 1) 1)
      else frac 0 1)"
  by (simp add: twenty_grid_def)

lemma twenty_dims:
  assumes "twenty_after i t"
  shows "nrows t = 21" "ncols t = 21"
  using assms by (simp_all add: twenty_after_def nrows_def ncols_def twenty_grid_def)

lemma twenty_masks:
  assumes "twenty_after i t" "a < 20"
  shows "dirtY t ! a = (a < i)" "dirtX t ! a = (a < i)"
  using assms by (simp_all add: twenty_after_def list_all_upt)

lemma twenty_neg_const:
  assumes "twenty_after i t" "a < 20"
  shows "N (Table t ! a ! 20) < 0 \<longleftrightarrow> \<not> a < i"
  using assms by (simp add: twenty_after_def twenty_cell frac_def)

lemma twenty_neg_entry:
  assumes "twenty_after i t" "a < 20" "b < 20"
  shows "N (Table t ! a ! b) < 0 \<longleftrightarrow> b = a"
  using assms by (simp add: twenty_after_def twenty_cell frac_def)

lemma twenty_pivot:
  assumes T: "twenty_after i t" and i: "i < 20"
  shows "PivotForFeasibility t = (int i, int i)" "\<not> IsFeasible t"
proof -
  note d = twenty_dims[OF T]
  have row: "N (Table t ! i ! (ncols t - 1)) < 0 \<and> \<not> dirtY t ! i"
    using twenty_neg_const[OF T i] twenty_masks(1)[OF T i] by (simp add: d)
  have col: "N (Table t ! i ! i) < 0 \<and> \<not> dirtX t ! i"
    using twenty_neg_entry[OF T i i] twenty_masks(2)[OF T i] by simp
  have first: "i' = i" if "i' < nrows t - 1" "N (Table t ! i' ! (ncols t - 1)) < 0" "\<not> dirtY t ! i'"
    "\<forall>k < i'. \<not> (N (Table t ! k ! (ncols t - 1)) < 0 \<and> \<not> dirtY t ! k)" for i'
  proof -
    from that(1) have i': "i' < 20" by (simp add: d)
    from that(2) twenty_neg_const[OF T i'] have "i \<le> i'" by (simp add: d)
    moreover from that(4) row have "\<not> i < i'" by blast
    ultimately show ?thesis by simp
  qed
  show "\<not> IsFeasible t"
    unfolding IsFeasible_iff using row i by (auto simp: d)
  show "PivotForFeasibility t = (int i, int i)"
  proof (cases t rule: PivotForFeasibility_cases)
    case norow
    with row i show ?thesis by (auto simp: d)
  next
    case (nocol i')
    from first[OF nocol(2-5)] have "i' = i" .
    with nocol(6) col i show ?thesis by (auto simp: d)
  next
    case (pivot i' j)
    from first[OF pivot(2-5)] have i': "i' = i" .
    from pivot(6) have "j < 20" by (simp add: d)
    with pivot(7) twenty_neg_entry[OF T i, of j] i' have "j = i" by simp
    with pivot(1) i' show ?thesis by simp
  qed
qed

lemma unit_arith:
  "Div \<lparr>N = 1, D = 1\<rparr> (frac (- 1) 1) = Some (frac (- 1) 1)"
  "Div (frac (- 1) 1) (frac (- 1) 1) = Some (frac 1 1)"
  "Div (frac 1 1) (frac (- 1) 1) = Some (frac (- 1) 1)"
  "Div (frac 0 1) (frac (- 1) 1) = Some (frac 0 1)"
  "Neg (frac 0 1) = Some (frac 0 1)"
  "Mul (frac 1 1) (frac (- 1) 1) = Some (frac (- 1) 1)"
  "Mul (frac (- 1) 1) (frac (- 1) 1) = Some (frac 1 1)"
  "Mul (frac 0 1) (frac (- 1) 1) = Some (frac 0 1)"
  "Mul (frac 0 1) (frac 0 1) = Some (frac 0 1)"
  "Sub (frac 1 1) (frac 0 1) = Some (frac 1 1)"
  "Sub (frac (- 1) 1) (frac 0 1) = Some (frac (- 1) 1)"
  "Sub (frac 0 1) (frac 0 1) = Some (frac 0 1)"
  by code_simp+

lemma twenty_cell_step:
  assumes T: "twenty_after i t" and i: "i < 20" and a: "a < 21" and b: "b < 21"
  shows "Transform_cell t i i a b = Some (twenty_grid (Suc i) ! a ! b)"
proof -
  have tab: "Table t = twenty_grid i" using T by (simp add: twenty_after_def)
  have i21: "i < 21" using i by simp
  have p: "twenty_grid i ! i ! i = frac (- 1) 1" using i by (simp add: twenty_cell)
  consider (pivot) "a = i" "b = i" | (row) "a = i" "b \<noteq> i" | (col) "a \<noteq> i" "b = i"
    | (rest) "a \<noteq> i" "b \<noteq> i" by blast
  then show ?thesis
  proof cases
    case pivot
    then show ?thesis using i by (simp add: Transform_cell_def tab twenty_cell unit_arith)
  next
    case row
    then show ?thesis using i b
      by (simp add: Transform_cell_def tab twenty_cell[OF i21 b] twenty_cell[OF i21 i21] unit_arith)
  next
    case col
    then show ?thesis using i a
      by (simp add: Transform_cell_def tab twenty_cell[OF a i21] twenty_cell[OF i21 i21] unit_arith)
  next
    case rest
    have ai: "twenty_grid i ! a ! i = frac 0 1" using rest i a by (simp add: twenty_cell)
    have same: "twenty_grid (Suc i) ! a ! b = twenty_grid i ! a ! b"
      using rest a b by (auto simp: twenty_cell)
    have ib: "twenty_grid i ! i ! b = frac 0 1 \<or> twenty_grid i ! i ! b = frac (- 1) 1"
      using b i by (simp add: twenty_cell)
    have ab: "twenty_grid i ! a ! b = frac 0 1 \<or> twenty_grid i ! a ! b = frac 1 1
        \<or> twenty_grid i ! a ! b = frac (- 1) 1"
      using a b by (simp add: twenty_cell)
    have "fillElement t a b i i = Some (twenty_grid i ! a ! b)"
      unfolding fillElement_def Let_def tab p ai using ib ab by (auto simp: unit_arith)
    with rest same show ?thesis by (simp add: Transform_cell_def)
  qed
qed

lemma twenty_step:
  assumes T: "twenty_after i t" and i: "i < 20"
  obtains t' where "Transform t (int i) (int i) = Some t'" "twenty_after (Suc i) t'"
proof -
  note d = twenty_dims[OF T]
  have wf: "wf_tableau t" using T by (simp add: twenty_after_def)
  have rng: "0 \<le> int i" "0 \<le> int i" "nat (int i) < nrows t" "nat (int i) < ncols t"
    using i by (simp_all add: d)
  then have "Transform t (int i) (int i) \<noteq> None" by (simp add: Transform_Some)
  then obtain t' where t': "Transform t (int i) (int i) = Some t'" by blast
  note sh = Transform_shape[OF rng t', simplified]
  have wf': "wf_tableau t'" by (rule sh(9)[OF wf])
  have len: "length (Table t') = 21" using sh(1) d by (simp add: nrows_def)
  have cell: "Table t' ! a ! b = twenty_grid (Suc i) ! a ! b" if "a < 21" "b < 21" for a b
    using sh(3)[of a b] that twenty_cell_step[OF T i that] by (simp add: d)
  have "Table t' = twenty_grid (Suc i)"
  proof (rule nth_equalityI)
    show "length (Table t') = length (twenty_grid (Suc i))"
      using len by (simp add: twenty_grid_def)
  next
    fix a assume "a < length (Table t')"
    then have a: "a < 21" using len by simp
    then have la: "length (Table t' ! a) = 21"
      using wf_row_length[OF wf', of a] sh(1,2) d by simp
    show "Table t' ! a = twenty_grid (Suc i) ! a"
    proof (rule nth_equalityI)
      show "length (Table t' ! a) = length (twenty_grid (Suc i) ! a)"
        using la a by (simp add: twenty_grid_def)
    next
      fix b assume "b < length (Table t' ! a)"
      then have "b < 21" using la by simp
      with a show "Table t' ! a ! b = twenty_grid (Suc i) ! a ! b" by (rule cell)
    qed
  qed
  moreover have "list_all (\<lambda>a. dirtY t' ! a = (a < Suc i) \<and> dirtX t' ! a = (a < Suc i)) [0..<20]"
    unfolding list_all_upt
  proof (intro allI impI)
    fix a :: nat assume a: "a < 20"
    have "length (dirtY t) = 21" "length (dirtX t) = 21"
      using wf d by (simp_all add: wf_tableau_def nrows_def ncols_def)
    with a i twenty_masks[OF T a] show "dirtY t' ! a = (a < Suc i) \<and> dirtX t' ! a = (a < Suc i)"
      unfolding sh(4,5) by (auto simp: nth_list_update less_Suc_eq)
  qed
  ultimately have "twenty_after (Suc i) t'" using wf' by (simp add: twenty_after_def)
  with t' show ?thesis by (rule that)
qed

lemma twenty_rounds:
  "twenty_after i t \<Longrightarrow> i + k = 20 \<Longrightarrow> \<exists>t'. feas_pivots k t = Some t' \<and> twenty_after 20 t'"
proof (induction k arbitrary: i t)
  case 0
  then show ?case by simp
next
  case (Suc k)
  then have i: "i < 20" by simp
  from twenty_pivot[OF Suc.prems(1) i] have
    P: "PivotForFeasibility t = (int i, int i)" "\<not> IsFeasible t" .
  from twenty_step[OF Suc.prems(1) i] obtain t1 where
    t1: "Transform t (int i) (int i) = Some t1" "twenty_after (Suc i) t1" by blast
  from Suc.prems(2) have "Suc i + k = 20" by simp
  from Suc.IH[OF t1(2) this] obtain t' where "feas_pivots k t1 = Some t'" "twenty_after 20 t'"
    by blast
  with P t1(1) show ?case by (simp add: IsPivotValid_def)
qed

lemma twenty_feasible: "twenty_after 20 t \<Longrightarrow> IsFeasible t"
  unfolding IsFeasible_iff
proof (intro allI impI)
  fix a assume T: "twenty_after 20 t" and "a < nrows t - 1"
  then have a: "a < 20" using twenty_dims[OF T] by simp
  with twenty_neg_const[OF T a] show "\<not> N (Table t ! a ! (ncols t - 1)) < 0"
    using twenty_dims[OF T] by simp
qed

lemma twenty_start: "twenty_after 0 ex_twenty"
proof -
  have "wf_tableau ex_twenty"
    by (simp add: wf_tableau_def ex_twenty_def tableau_of_def twenty_grid_def list_all_iff)
  moreover have "Table ex_twenty = twenty_grid 0"
    by (simp add: ex_twenty_def tableau_of_def)
  moreover have "list_all (\<lambda>a. dirtY ex_twenty ! a = (a < 0) \<and> dirtX ex_twenty ! a = (a < 0)) [0..<20]"
    unfolding list_all_upt by (simp add: ex_twenty_def tableau_of_def twenty_grid_def)
  ultimately show ?thesis by (simp add: twenty_after_def)
qed

lemma Init_wf: "Init rows cols = Some t \<Longrightarrow> wf_tableau t"
  by (auto simp: Init_def wf_tableau_def list_all_iff split: if_splits)

section \<open>The claims\<close>

subsection \<open>C1\<close>

text \<open>
  C1 (as amended). Let \<open>t\<close> be a well-formed tableau with at least two rows and two
  columns in which every numerator and every denominator is at most \<open>B\<close> in absolute
  value, where \<open>2 B\<^sup>5 < 2\<^sup>6\<^sup>3\<close>, and \<open>(r, s)\<close> a coordinate off the objective row and
  the constant column whose entry \<open>p\<close> stands for a rational number other than zero.
  Then \<open>Transform\<close> returns a tableau \<open>b\<close> of the same dimensions in which cell
  \<open>(r, s)\<close> is \<open>1 / p\<close>, every other cell of row \<open>r\<close> is the old cell divided by
  \<open>p\<close>, every other cell of column \<open>s\<close> is minus the old cell divided by \<open>p\<close>, and
  every remaining cell \<open>(i, j)\<close> is \<open>(old(i, j) * p - old(i, s) * old(r, j)) / p\<close>;
  each of these equations is stated for the cells whose formula only involves old
  entries that stand for a rational number (nonzero denominator), and the new cell then
  has a positive denominator. The row mask is the old one with entry \<open>r\<close> set, the
  column mask the old one with entry \<open>s\<close> set, the row label at \<open>r\<close> and the column
  label at \<open>s\<close> are exchanged, and the other labels and \<open>IsMaximization\<close> are
  unchanged.
\<close>

theorem Transform_formulas:
  assumes "wf_tableau t" "2 \<le> nrows t" "2 \<le> ncols t"
    and "entries_within B t" "2 * B ^ 5 < 2 ^ 63"
    and "r < nrows t - 1" "s < ncols t - 1" "val (Table t ! r ! s) \<noteq> 0"
  shows "\<exists>b. Transform t (int r) (int s) = Some b \<and>
     0 < D (Table b ! r ! s) \<and> val (Table b ! r ! s) = 1 / val (Table t ! r ! s) \<and>
     (\<forall>j < ncols t. j \<noteq> s \<and> D (Table t ! r ! j) \<noteq> 0 \<longrightarrow>
        0 < D (Table b ! r ! j) \<and>
        val (Table b ! r ! j) = val (Table t ! r ! j) / val (Table t ! r ! s)) \<and>
     (\<forall>i < nrows t. i \<noteq> r \<and> D (Table t ! i ! s) \<noteq> 0 \<longrightarrow>
        0 < D (Table b ! i ! s) \<and>
        val (Table b ! i ! s) = - val (Table t ! i ! s) / val (Table t ! r ! s)) \<and>
     (\<forall>i < nrows t. \<forall>j < ncols t.
        i \<noteq> r \<and> j \<noteq> s \<and> D (Table t ! i ! j) \<noteq> 0 \<and> D (Table t ! i ! s) \<noteq> 0 \<and>
        D (Table t ! r ! j) \<noteq> 0 \<longrightarrow>
        0 < D (Table b ! i ! j) \<and>
        val (Table b ! i ! j) =
          (val (Table t ! i ! j) * val (Table t ! r ! s)
             - val (Table t ! i ! s) * val (Table t ! r ! j)) / val (Table t ! r ! s)) \<and>
     dirtY b = (dirtY t)[r := True] \<and> dirtX b = (dirtX t)[s := True] \<and>
     RowNames b = (RowNames t)[r := ColNames t ! s] \<and>
     ColNames b = (ColNames t)[s := RowNames t ! r] \<and>
     nrows b = nrows t \<and> ncols b = ncols t \<and> IsMaximization b = IsMaximization t \<and>
     wf_tableau b"
proof -
  let ?p = "Table t ! r ! s"
  have rng: "0 \<le> int r" "0 \<le> int s" "nat (int r) < nrows t" "nat (int s) < ncols t"
    using assms(6,7) by simp_all
  then have "Transform t (int r) (int s) \<noteq> None"
    by (simp add: Transform_Some)
  then obtain b where b: "Transform t (int r) (int s) = Some b" by blast
  note sh = Transform_shape[OF rng b, simplified]
  have rs: "r < nrows t" "s < ncols t" using assms(6,7) by simp_all
  have Dp: "D ?p \<noteq> 0" and Np: "N ?p \<noteq> 0"
    using assms(8) by (simp_all add: val_def)
  note be = bounded_entry[OF assms(1,4)]
  have bp: "bounded_by B ?p" by (rule be[OF rs])
  have B1: "1 \<le> B" using bounded_by_pos[OF bp] Dp by simp
  note ch = bound_chain[OF B1 assms(5)]
  have pivot: "0 < D (Table b ! r ! s) \<and> val (Table b ! r ! s) = 1 / val ?p"
  proof -
    from Transform_pivot_val[OF bp ch(1) Np] obtain q where
      q: "Transform_cell t r s r s = Some q" "0 < D q" "val q = 1 / val ?p" by blast
    from sh(3)[OF rs] q(1) have "Table b ! r ! s = q" by simp
    with q(2,3) show ?thesis by simp
  qed
  have row: "0 < D (Table b ! r ! j) \<and> val (Table b ! r ! j) = val (Table t ! r ! j) / val ?p"
    if j: "j < ncols t" "j \<noteq> s" "D (Table t ! r ! j) \<noteq> 0" for j
  proof -
    from Transform_row_val[OF be[OF rs(1) j(1)] bp ch(2) j(3) Np j(2)] obtain q where
      q: "Transform_cell t r s r j = Some q" "0 < D q"
      "val q = val (Table t ! r ! j) / val ?p" by blast
    from sh(3)[OF rs(1) j(1)] q(1) have "Table b ! r ! j = q" by simp
    with q(2,3) show ?thesis by simp
  qed
  have col: "0 < D (Table b ! i ! s) \<and> val (Table b ! i ! s) = - val (Table t ! i ! s) / val ?p"
    if i: "i < nrows t" "i \<noteq> r" "D (Table t ! i ! s) \<noteq> 0" for i
  proof -
    from Transform_col_val[OF be[OF i(1) rs(2)] bp ch(2) i(3) Np i(2)] obtain q where
      q: "Transform_cell t r s i s = Some q" "0 < D q"
      "val q = - val (Table t ! i ! s) / val ?p" by blast
    from sh(3)[OF i(1) rs(2)] q(1) have "Table b ! i ! s = q" by simp
    with q(2,3) show ?thesis by simp
  qed
  have rest: "0 < D (Table b ! i ! j) \<and> val (Table b ! i ! j) =
      (val (Table t ! i ! j) * val ?p - val (Table t ! i ! s) * val (Table t ! r ! j)) / val ?p"
    if ij: "i < nrows t" "j < ncols t" "i \<noteq> r" "j \<noteq> s"
      and nz: "D (Table t ! i ! j) \<noteq> 0" "D (Table t ! i ! s) \<noteq> 0" "D (Table t ! r ! j) \<noteq> 0"
    for i j
  proof -
    from Transform_rest_val[OF be[OF ij(1,2)] be[OF ij(1) rs(2)] be[OF rs(1) ij(2)] bp
        assms(5) nz Dp Np ij(3,4)]
    obtain q where q: "Transform_cell t r s i j = Some q" "0 < D q"
      "val q = (val (Table t ! i ! j) * val ?p
              - val (Table t ! i ! s) * val (Table t ! r ! j)) / val ?p" by blast
    from sh(3)[OF ij(1,2)] q(1) have "Table b ! i ! j = q" by simp
    with q(2,3) show ?thesis by simp
  qed
  have wfb: "wf_tableau b" by (rule sh(9)[OF assms(1)])
  have "\<forall>j < ncols t. j \<noteq> s \<and> D (Table t ! r ! j) \<noteq> 0 \<longrightarrow>
        0 < D (Table b ! r ! j) \<and>
        val (Table b ! r ! j) = val (Table t ! r ! j) / val ?p"
    using row by blast
  moreover have "\<forall>i < nrows t. i \<noteq> r \<and> D (Table t ! i ! s) \<noteq> 0 \<longrightarrow>
        0 < D (Table b ! i ! s) \<and>
        val (Table b ! i ! s) = - val (Table t ! i ! s) / val ?p"
    using col by blast
  moreover have "\<forall>i < nrows t. \<forall>j < ncols t.
        i \<noteq> r \<and> j \<noteq> s \<and> D (Table t ! i ! j) \<noteq> 0 \<and> D (Table t ! i ! s) \<noteq> 0 \<and>
        D (Table t ! r ! j) \<noteq> 0 \<longrightarrow>
        0 < D (Table b ! i ! j) \<and>
        val (Table b ! i ! j) =
          (val (Table t ! i ! j) * val ?p
             - val (Table t ! i ! s) * val (Table t ! r ! j)) / val ?p"
    using rest by blast
  ultimately show ?thesis using b pivot sh(1,2,4-8) wfb by (intro exI[of _ b]) simp
qed

theorem Transform_formulas_witness:
  "\<exists>b. Transform ex_both 0 1 = Some b \<and>
     val (Table b ! 0 ! 1) = - 4 / 3 \<and> val (Table b ! 0 ! 2) = 20 / 3 \<and>
     val (Table b ! 1 ! 1) = 8 / 3 \<and> val (Table b ! 1 ! 2) = - 31 / 3 \<and>
     dirtY b = [True, False, False] \<and> dirtX b = [False, True, False] \<and>
     RowNames b = [''-x2'', ''s2'', ''F''] \<and> ColNames b = [''-x1'', ''s1'', ''const'']"
proof -
  have h: "wf_tableau ex_both" "2 \<le> nrows ex_both" "2 \<le> ncols ex_both"
    "entries_within 5 ex_both" "2 * 5 ^ 5 < (2 :: int) ^ 63"
    "0 < nrows ex_both - 1" "1 < ncols ex_both - 1"
    "val (Table ex_both ! 0 ! 1) \<noteq> 0"
    by code_simp+
  have n: "nrows ex_both = 3" "ncols ex_both = 3" by code_simp+
  have e: "Table ex_both = [[frac (- 1) 1, frac (- 3) 4, frac (- 5) 1],
      [frac 1 1, frac 2 1, frac 3 1],
      [frac (- 1) 1, frac (- 3) 4, frac 0 1]]"
    "dirtY ex_both = [False, False, False]" "dirtX ex_both = [False, False, False]"
    "RowNames ex_both = [''s1'', ''s2'', ''F'']" "ColNames ex_both = [''-x1'', ''-x2'', ''const'']"
    by (simp_all add: ex_both_def tableau_of_def dec.simps numeral_3_eq_3)
  from Transform_formulas [OF h] obtain b where b: "Transform ex_both (int 0) (int 1) = Some b"
     "val (Table b ! 0 ! 1) = 1 / val (Table ex_both ! 0 ! 1)"
     "\<forall>j < ncols ex_both. j \<noteq> 1 \<and> D (Table ex_both ! 0 ! j) \<noteq> 0 \<longrightarrow>
        0 < D (Table b ! 0 ! j) \<and>
        val (Table b ! 0 ! j) = val (Table ex_both ! 0 ! j) / val (Table ex_both ! 0 ! 1)"
     "\<forall>i < nrows ex_both. i \<noteq> 0 \<and> D (Table ex_both ! i ! 1) \<noteq> 0 \<longrightarrow>
        0 < D (Table b ! i ! 1) \<and>
        val (Table b ! i ! 1) = - val (Table ex_both ! i ! 1) / val (Table ex_both ! 0 ! 1)"
     "\<forall>i < nrows ex_both. \<forall>j < ncols ex_both.
        i \<noteq> 0 \<and> j \<noteq> 1 \<and> D (Table ex_both ! i ! j) \<noteq> 0 \<and> D (Table ex_both ! i ! 1) \<noteq> 0 \<and>
        D (Table ex_both ! 0 ! j) \<noteq> 0 \<longrightarrow>
        0 < D (Table b ! i ! j) \<and>
        val (Table b ! i ! j) =
          (val (Table ex_both ! i ! j) * val (Table ex_both ! 0 ! 1)
             - val (Table ex_both ! i ! 1) * val (Table ex_both ! 0 ! j)) / val (Table ex_both ! 0 ! 1)"
     "dirtY b = (dirtY ex_both)[0 := True]" "dirtX b = (dirtX ex_both)[1 := True]"
     "RowNames b = (RowNames ex_both)[0 := ColNames ex_both ! 1]"
     "ColNames b = (ColNames ex_both)[1 := RowNames ex_both ! 0]"
    by blast
  have "val (Table b ! 0 ! 1) = - 4 / 3" using b(2) by (simp add: e frac_def val_def)
  moreover have "val (Table b ! 0 ! 2) = 20 / 3"
    using b(3)[rule_format, of 2] by (simp add: n e frac_def val_def)
  moreover have "val (Table b ! 1 ! 1) = 8 / 3"
    using b(4)[rule_format, of 1] by (simp add: n e frac_def val_def)
  moreover have "val (Table b ! 1 ! 2) = - 31 / 3"
    using b(5)[rule_format, of 1 2] by (simp add: n e frac_def val_def)
  ultimately show ?thesis using b(1,6-9) by (intro exI[of _ b]) (simp add: e)
qed

text \<open>
  C1 as stated, for every tableau, fails where a product leaves the range of \<open>int\<close>.
  On \<open>ex_overflow\<close> the entries are reduced, \<open>Pivot\<close> selects \<open>(0, 0)\<close>, and the
  cell \<open>(1, 1)\<close> of the formula is \<open>(0 * 2\<^sup>3\<^sup>2 + 2\<^sup>3\<^sup>2 * 2\<^sup>3\<^sup>2) / 2\<^sup>3\<^sup>2 = 2\<^sup>3\<^sup>2\<close>;
  \<open>fillElement\<close> computes the product \<open>-2\<^sup>6\<^sup>4\<close>, which wraps around to \<open>0\<close>, and
  \<open>Transform\<close> leaves \<open>0/2\<^sup>3\<^sup>2\<close> in the cell.
\<close>

theorem Transform_overflow_counterexample:
  "wf_tableau ex_overflow \<and> list_all (list_all reduced) (Table ex_overflow) \<and>
   Pivot ex_overflow = Some (0, 0) \<and>
   map_option Table (Transform ex_overflow 0 0) =
     Some [[frac 1 4294967296, frac 1 1], [frac 1 1, frac 0 4294967296]] \<and>
   (val (Table ex_overflow ! 1 ! 1) * val (Table ex_overflow ! 0 ! 0)
      - val (Table ex_overflow ! 1 ! 0) * val (Table ex_overflow ! 0 ! 1))
     / val (Table ex_overflow ! 0 ! 0) = 4294967296"
  by code_simp

subsection \<open>C2\<close>

text \<open>
  C2. On \<open>ex_numerators\<close> (maximising) the objective row holds \<open>-1/1\<close> in column
  \<open>0\<close> and \<open>-3/4\<close> in column \<open>1\<close>, both reduced with positive denominators. The
  most negative value is in column \<open>0\<close>, but \<open>Pivot\<close> compares the numerators
  \<open>-1\<close> and \<open>-3\<close> only and enters column \<open>1\<close>.
\<close>

theorem Pivot_compares_numerators:
  "list_all (list_all reduced) (Table ex_numerators) \<and> wf_tableau ex_numerators \<and>
   val (Table ex_numerators ! 1 ! 0) < val (Table ex_numerators ! 1 ! 1) \<and>
   Pivot_enter ex_numerators = 1 \<and> Pivot ex_numerators = Some (0, 1)"
  by code_simp

subsection \<open>C3\<close>

text \<open>
  C3 (as amended). Let the entries of a well-formed tableau have positive denominators,
  let every numerator and every denominator be at most \<open>B\<close> in absolute value, where
  \<open>B\<^sup>4 < 2\<^sup>6\<^sup>3\<close>, and let \<open>Pivot\<close> have chosen the entering column \<open>s\<close>. The
  candidate rows are the unmasked rows other than the objective row with a strictly
  positive entry in column \<open>s\<close>. If there is none, \<open>Pivot\<close> returns \<open>(-1, -1)\<close>.
  Otherwise it returns \<open>(r, s)\<close> where \<open>r\<close> is the candidate whose ratio
  \<open>RHS / entry\<close> is the smallest strictly positive one, the first such row on a tie; a
  candidate of ratio zero (or below) is passed over for any later candidate of positive
  ratio, and only when no candidate has a strictly positive ratio is \<open>r\<close> the first
  candidate.
\<close>

theorem Pivot_leaving_row:
  assumes "wf_tableau t" "positive_denominators t"
    and "entries_within B t" "B ^ 4 < 2 ^ 63" "Pivot_enter t = int s"
  shows "((\<forall>i < nrows t - 1. \<not> candidate t s i) \<longrightarrow> Pivot t = Some (- 1, - 1)) \<and>
         ((\<exists>i < nrows t - 1. candidate t s i) \<longrightarrow>
            (\<exists>r. Pivot t = Some (int r, int s) \<and>
                 smallest_positive_ratio (candidate t s) (ratio t s) (nrows t - 1) r))"
proof -
  from assms(5) Pivot_enter_cases[of t] have s: "s < ncols t - 1" by auto
  then have s': "s < ncols t" by simp
  from leave_loop_inv[OF assms(1,2,3,4) s' order_refl] obtain r mr where
    run: "leave_loop t (ncols t) s [0..<nrows t - 1] (- 1, \<lparr>N = 0, D = 0\<rparr>) = Some (r, mr)"
    and none: "(\<forall>i < nrows t - 1. \<not> candidate t s i) \<longrightarrow> r = - 1"
    and some: "(\<exists>i < nrows t - 1. candidate t s i) \<longrightarrow>
        (\<exists>j. r = int j \<and> smallest_positive_ratio (candidate t s) (ratio t s) (nrows t - 1) j \<and>
             0 < D mr \<and> val mr = ratio t s j \<and> bounded_by (B * B) mr)"
    by blast
  have leave: "Pivot_leave t s = Some r"
    using run by (simp add: Pivot_leave_def Let_def nrows_def ncols_def)
  have P: "Pivot t = (if r = - 1 then Some (- 1, - 1) else Some (r, int s))"
    using assms(5) leave by (simp add: Pivot_def Let_def)
  show ?thesis
  proof (intro conjI impI)
    assume "\<forall>i < nrows t - 1. \<not> candidate t s i"
    with none have "r = - 1" by simp
    with P show "Pivot t = Some (- 1, - 1)" by simp
  next
    assume "\<exists>i < nrows t - 1. candidate t s i"
    with some obtain j where "r = int j"
      "smallest_positive_ratio (candidate t s) (ratio t s) (nrows t - 1) j" by blast
    with P show "\<exists>r. Pivot t = Some (int r, int s) \<and>
                 smallest_positive_ratio (candidate t s) (ratio t s) (nrows t - 1) r"
      by (intro exI[of _ j]) simp
  qed
qed

theorem Pivot_leaving_row_witness:
  "Pivot ex_zero_ratio = Some (1, 0) \<and>
   smallest_positive_ratio (candidate ex_zero_ratio 0) (ratio ex_zero_ratio 0) 2 1"
proof -
  have h: "wf_tableau ex_zero_ratio" "positive_denominators ex_zero_ratio"
    "entries_within 5 ex_zero_ratio" "5 ^ 4 < (2 :: int) ^ 63"
    "Pivot_enter ex_zero_ratio = int 0"
    by code_simp+
  have c: "candidate ex_zero_ratio 0 0" "nrows ex_zero_ratio - 1 = 2"
    "Pivot ex_zero_ratio = Some (1, 0)"
    by code_simp+
  from c(1,2) have "\<exists>i < nrows ex_zero_ratio - 1. candidate ex_zero_ratio 0 i"
    by (intro exI[of _ 0]) simp
  with Pivot_leaving_row [OF h] obtain r where
    "Pivot ex_zero_ratio = Some (int r, int 0)"
    "smallest_positive_ratio (candidate ex_zero_ratio 0) (ratio ex_zero_ratio 0)
       (nrows ex_zero_ratio - 1) r" by blast
  with c(2,3) show ?thesis by simp
qed

text \<open>
  C3 as stated fails on \<open>ex_zero_ratio\<close>: the entries are reduced with positive
  denominators, column \<open>0\<close> enters, rows \<open>0\<close> and \<open>1\<close> are the candidates with the
  ratios \<open>0\<close> and \<open>5\<close>, and \<open>Pivot\<close> returns row \<open>1\<close>, not the row \<open>0\<close> of the
  smallest non-negative ratio. It also fails where a product leaves the range of
  \<open>int\<close>: on \<open>ex_ratio_overflow\<close> the entries are reduced with positive
  denominators, the candidates are the rows \<open>0\<close> and \<open>1\<close> with the ratios \<open>2\<^sup>4\<^sup>0\<close> and
  \<open>2\<^sup>6\<^sup>4 + 2\<^sup>3\<^sup>2\<close>, \<open>Div\<close> returns \<open>2\<^sup>3\<^sup>2\<close> for the second, and \<open>Pivot\<close> returns row
  \<open>1\<close>, the row of the larger ratio.
\<close>

theorem Pivot_zero_ratio_counterexample:
  "list_all (list_all reduced) (Table ex_zero_ratio) \<and> Pivot_enter ex_zero_ratio = 0 \<and>
   candidate ex_zero_ratio 0 0 \<and> candidate ex_zero_ratio 0 1 \<and>
   ratio ex_zero_ratio 0 0 = 0 \<and> ratio ex_zero_ratio 0 1 = 5 \<and>
   Pivot ex_zero_ratio = Some (1, 0) \<and>
   list_all (list_all reduced) (Table ex_ratio_overflow) \<and> Pivot_enter ex_ratio_overflow = 0 \<and>
   candidate ex_ratio_overflow 0 0 \<and> candidate ex_ratio_overflow 0 1 \<and>
   ratio ex_ratio_overflow 0 0 = 1099511627776 \<and>
   ratio ex_ratio_overflow 0 1 = 18446744078004518912 \<and>
   Div (Table ex_ratio_overflow ! 1 ! 1) (Table ex_ratio_overflow ! 1 ! 0)
     = Some (frac 4294967296 1) \<and>
   Pivot ex_ratio_overflow = Some (1, 0)"
  by code_simp

subsection \<open>C4\<close>

text \<open>
  C4 (as amended). For every fraction \<open>n/d\<close> with \<open>d \<noteq> 0\<close> in which neither \<open>n\<close> nor
  \<open>d\<close> is the least value \<open>-2\<^sup>6\<^sup>3\<close> of \<open>int\<close>, \<open>Simplify\<close> returns (it does not
  panic) a fraction \<open>n'/d'\<close> with \<open>d' > 0\<close> that stands for the same rational number.
  When \<open>n \<noteq> 0\<close> the result is in lowest terms, \<open>gcd(|n'|, d') = 1\<close>. When \<open>n = 0\<close>
  the guard of \<open>gcd\<close> returns \<open>1\<close>, nothing is divided out, and the result is
  \<open>0/|d|\<close>, not \<open>0/1\<close>.
\<close>

theorem Simplify_reduces:
  "d \<noteq> 0 \<Longrightarrow> \<bar>n\<bar> < 2 ^ 63 \<Longrightarrow> \<bar>d\<bar> < 2 ^ 63 \<Longrightarrow>
   \<exists>x. Simplify \<lparr>N = n, D = d\<rparr> = Some x \<and> 0 < D x \<and> val x = of_int n / of_int d
     \<and> (n \<noteq> 0 \<longrightarrow> gcd \<bar>N x\<bar> (D x) = 1)
     \<and> (n = 0 \<longrightarrow> x = \<lparr>N = 0, D = \<bar>d\<bar>\<rparr>)"
proof -
  assume d: "d \<noteq> 0" and rn: "\<bar>n\<bar> < 2 ^ 63" and rd: "\<bar>d\<bar> < 2 ^ 63"
  let ?n = "\<lparr>N = n, D = d\<rparr>"
  from d rn rd have "D ?n \<noteq> 0" "\<bar>N ?n\<bar> < 2 ^ 63" "\<bar>D ?n\<bar> < 2 ^ 63" by simp_all
  from Simplify_val[OF this] obtain x where x: "Simplify ?n = Some x" "0 < D x" "val x = val ?n"
    "N ?n \<noteq> 0 \<Longrightarrow> coprime (N x) (D x)" "N ?n = 0 \<Longrightarrow> x = \<lparr>N = 0, D = \<bar>D ?n\<bar>\<rparr>"
    by blast
  have "n \<noteq> 0 \<longrightarrow> gcd \<bar>N x\<bar> (D x) = 1"
    using x(4) by (simp add: coprime_iff_gcd_eq_1)
  moreover have "n = 0 \<longrightarrow> x = \<lparr>N = 0, D = \<bar>d\<bar>\<rparr>"
    using x(5) by simp
  moreover have "val x = of_int n / of_int d"
    using x(3) by (simp add: val_def)
  ultimately show ?thesis using x(1,2) by (intro exI [of _ x]) simp
qed

theorem Simplify_reduces_witness:
  "\<exists>x. Simplify \<lparr>N = - 4, D = - 6\<rparr> = Some x \<and> 0 < D x \<and> val x = 2 / 3
     \<and> gcd \<bar>N x\<bar> (D x) = 1"
  using Simplify_reduces [of "- 6" "- 4"] by simp

text \<open>
  C4 as stated fails at the numerator \<open>0\<close>: \<open>0/5\<close> is returned unchanged, which is
  neither \<open>0/1\<close> nor in lowest terms. It also fails at the least value of \<open>int\<close>,
  whose negation wraps around to itself: \<open>1/(-2\<^sup>6\<^sup>3)\<close> becomes \<open>-1/(-2\<^sup>6\<^sup>3)\<close>, with a
  negative denominator and the opposite sign, and \<open>(-2\<^sup>6\<^sup>3)/(-1)\<close> becomes
  \<open>(-2\<^sup>6\<^sup>3)/1\<close>.
\<close>

theorem Simplify_zero_counterexample:
  "Simplify \<lparr>N = 0, D = 5\<rparr> = Some \<lparr>N = 0, D = 5\<rparr> \<and> \<not> reduced \<lparr>N = 0, D = 5\<rparr> \<and>
   Simplify \<lparr>N = 1, D = - 9223372036854775808\<rparr>
     = Some \<lparr>N = - 1, D = - 9223372036854775808\<rparr> \<and>
   Simplify \<lparr>N = - 9223372036854775808, D = - 1\<rparr>
     = Some \<lparr>N = - 9223372036854775808, D = 1\<rparr>"
  by code_simp

subsection \<open>C5\<close>

text \<open>
  C5 (as amended). On a well-formed tableau \<open>MakeFeasible\<close> does not panic. It
  performs \<open>k \<le> 20\<close> rounds, each on a tableau that is not feasible and each a
  \<open>Transform\<close> on the pair that \<open>PivotForFeasibility\<close> returns there, and returns
  the tableau \<open>t'\<close> reached. It returns true exactly when \<open>t'\<close> is feasible and was
  reached in fewer than \<open>20\<close> rounds; after the 20th round it returns false without
  looking at \<open>t'\<close> again; and it returns false before that only on a tableau that is
  not feasible and on which \<open>PivotForFeasibility\<close> returns an invalid pair. A valid
  pair of \<open>PivotForFeasibility\<close> is the first unmasked constraint row with a negative
  constant and an unmasked column, not the constant column, with a negative entry in
  that row; the pair is invalid when there is no unmasked constraint row with a
  negative constant (the negative constants are all in masked rows), or when the first
  such row has no negative entry in an unmasked column.
\<close>

theorem MakeFeasible_outcome:
  assumes "wf_tableau t"
  shows "(\<exists>k b t'. k \<le> 20 \<and> feas_pivots k t = Some t' \<and> MakeFeasible t = Some (b, t') \<and>
            wf_tableau t' \<and> (b \<longleftrightarrow> k < 20 \<and> IsFeasible t') \<and>
            (k < 20 \<and> \<not> IsFeasible t' \<longrightarrow>
               \<not> IsPivotValid (fst (PivotForFeasibility t')) (snd (PivotForFeasibility t')))) \<and>
         (IsPivotValid (fst (PivotForFeasibility t)) (snd (PivotForFeasibility t)) \<longrightarrow>
            (\<exists>i j. PivotForFeasibility t = (int i, int j) \<and>
               i < nrows t - 1 \<and> negative_row t i \<and> (\<forall>k < i. \<not> negative_row t k) \<and>
               j < ncols t - 1 \<and> negative_col t i j)) \<and>
         (\<not> IsPivotValid (fst (PivotForFeasibility t)) (snd (PivotForFeasibility t)) \<longrightarrow>
            (\<forall>i < nrows t - 1. \<not> negative_row t i) \<or>
            (\<exists>i < nrows t - 1. negative_row t i \<and> (\<forall>k < i. \<not> negative_row t k) \<and>
               (\<forall>j < ncols t - 1. \<not> negative_col t i j)))"
proof (intro conjI)
  from MakeFeasible_loop_outcome[OF assms, of 1]
  show "\<exists>k b t'. k \<le> 20 \<and> feas_pivots k t = Some t' \<and> MakeFeasible t = Some (b, t') \<and>
            wf_tableau t' \<and> (b \<longleftrightarrow> k < 20 \<and> IsFeasible t') \<and>
            (k < 20 \<and> \<not> IsFeasible t' \<longrightarrow>
               \<not> IsPivotValid (fst (PivotForFeasibility t')) (snd (PivotForFeasibility t')))"
    by (simp add: MakeFeasible_def)
next
  show "IsPivotValid (fst (PivotForFeasibility t)) (snd (PivotForFeasibility t)) \<longrightarrow>
            (\<exists>i j. PivotForFeasibility t = (int i, int j) \<and>
               i < nrows t - 1 \<and> negative_row t i \<and> (\<forall>k < i. \<not> negative_row t k) \<and>
               j < ncols t - 1 \<and> negative_col t i j)"
  proof (cases t rule: PivotForFeasibility_cases)
    case norow
    then show ?thesis by (simp add: IsPivotValid_def)
  next
    case (nocol i)
    then show ?thesis by (simp add: IsPivotValid_def)
  next
    case (pivot i j)
    then show ?thesis
      by (intro impI exI[of _ i] exI[of _ j]) (simp add: negative_row_def negative_col_def)
  qed
next
  show "\<not> IsPivotValid (fst (PivotForFeasibility t)) (snd (PivotForFeasibility t)) \<longrightarrow>
            (\<forall>i < nrows t - 1. \<not> negative_row t i) \<or>
            (\<exists>i < nrows t - 1. negative_row t i \<and> (\<forall>k < i. \<not> negative_row t k) \<and>
               (\<forall>j < ncols t - 1. \<not> negative_col t i j))"
  proof (cases t rule: PivotForFeasibility_cases)
    case norow
    then show ?thesis by (simp add: negative_row_def)
  next
    case (nocol i)
    then have "i < nrows t - 1 \<and> negative_row t i \<and> (\<forall>k < i. \<not> negative_row t k) \<and>
               (\<forall>j < ncols t - 1. \<not> negative_col t i j)"
      by (simp add: negative_row_def negative_col_def)
    then show ?thesis by blast
  next
    case (pivot i j)
    then show ?thesis by (simp add: IsPivotValid_def)
  qed
qed

theorem MakeFeasible_outcome_witness:
  "\<exists>k t'. k < 20 \<and> feas_pivots k ex_restorable = Some t' \<and>
     MakeFeasible ex_restorable = Some (True, t') \<and> IsFeasible t' \<and>
     PivotForFeasibility ex_restorable = (0, 1)"
proof -
  have h: "wf_tableau ex_restorable" by code_simp
  have e: "map_option fst (MakeFeasible ex_restorable) = Some True"
    "PivotForFeasibility ex_restorable = (0, 1)" by code_simp+
  from MakeFeasible_outcome [OF h] obtain k b t' where
    k: "feas_pivots k ex_restorable = Some t'" "MakeFeasible ex_restorable = Some (b, t')"
    "b \<longleftrightarrow> k < 20 \<and> IsFeasible t'" by blast
  from e(1) k(2) have "b" by simp
  with k e(2) show ?thesis by (intro exI[of _ k] exI[of _ t']) simp
qed

text \<open>
  C5 as stated fails in its description of the pivot and of the results. On
  \<open>ex_both\<close> the first pivot is \<open>(0, 1)\<close> although the most negative entry of row
  \<open>0\<close> is in the unmasked column \<open>0\<close>; and \<open>MakeFeasible\<close> returns false after two
  rounds on a tableau on which \<open>PivotForFeasibility\<close> returns \<open>(-1, -1)\<close>: no
  unmasked row has a negative constant (row \<open>0\<close>, masked by the first round, has one),
  and the cap has not been reached. On \<open>ex_twenty\<close> the 20th round makes the tableau
  feasible, and \<open>MakeFeasible\<close> returns false with that feasible tableau.
\<close>

theorem MakeFeasible_counterexample:
  "PivotForFeasibility ex_both = (0, 1) \<and> \<not> dirtX ex_both ! 0 \<and>
   val (Table ex_both ! 0 ! 0) < val (Table ex_both ! 0 ! 1) \<and>
   map_option (\<lambda>p. (fst p, PivotForFeasibility (snd p), dirtY (snd p),
                     N (Table (snd p) ! 0 ! 2) < 0))
     (MakeFeasible ex_both) = Some (False, (- 1, - 1), [True, True, False], True) \<and>
   map_option (\<lambda>t'. dirtY t') (feas_pivots 2 ex_both) = Some [True, True, False] \<and>
   map_option (\<lambda>p. (fst p, IsFeasible (snd p))) (MakeFeasible ex_twenty) = Some (False, True)"
proof -
  from twenty_rounds[OF twenty_start, of 20] obtain t' where
    t': "feas_pivots 20 ex_twenty = Some t'" "twenty_after 20 t'" by auto
  from MakeFeasible_loop_cap[OF t'(1), of 1] have "MakeFeasible ex_twenty = Some (False, t')"
    by (simp add: MakeFeasible_def)
  with twenty_feasible[OF t'(2)] have
    1: "map_option (\<lambda>p. (fst p, IsFeasible (snd p))) (MakeFeasible ex_twenty) = Some (False, True)"
    by simp
  have 2: "PivotForFeasibility ex_both = (0, 1)" "\<not> dirtX ex_both ! 0"
    "val (Table ex_both ! 0 ! 0) < val (Table ex_both ! 0 ! 1)"
    "map_option (\<lambda>p. (fst p, PivotForFeasibility (snd p), dirtY (snd p),
                     N (Table (snd p) ! 0 ! 2) < 0))
     (MakeFeasible ex_both) = Some (False, (- 1, - 1), [True, True, False], True)"
    "map_option (\<lambda>t'. dirtY t') (feas_pivots 2 ex_both) = Some [True, True, False]"
    by code_simp+
  from 1 2 show ?thesis by blast
qed

subsection \<open>C6\<close>

text \<open>
  C6 (as amended). On a well-formed tableau \<open>Pivot\<close> does not tell the two conditions
  apart: when no unmasked column is improving (its optimality path) it returns
  \<open>(-1, -1)\<close>, and when an entering column exists but no unmasked constraint row has a
  positive entry in it (its unboundedness path) it returns the same pair \<open>(-1, -1)\<close>;
  in every other case the pair is valid. \<open>MakeFeasible\<close> likewise has one result for
  its two failures: false when \<open>PivotForFeasibility\<close> finds no pivot on a tableau
  that is not feasible, and false when its twenty rounds are used up.
\<close>

theorem Pivot_statuses:
  assumes "wf_tableau t"
  shows "(Pivot_enter t = - 1 \<longrightarrow> Pivot t = Some (- 1, - 1)) \<and>
   (Pivot_enter t \<noteq> - 1 \<and> Pivot_leave t (nat (Pivot_enter t)) = Some (- 1) \<longrightarrow>
      Pivot t = Some (- 1, - 1)) \<and>
   (Pivot_enter t \<noteq> - 1 \<and> Pivot_leave t (nat (Pivot_enter t)) \<noteq> Some (- 1) \<longrightarrow>
      (\<exists>r s. Pivot t = Some (r, s) \<and> IsPivotValid r s)) \<and>
   (Pivot_enter t = - 1 \<longleftrightarrow> (\<forall>j < ncols t - 1. \<not> (\<not> dirtX t ! j \<and> improving t j))) \<and>
   (\<forall>s. Pivot_leave t s = Some (- 1) \<longleftrightarrow>
      (\<forall>i < nrows t - 1. \<not> (\<not> dirtY t ! i \<and> N (Table t ! i ! s) > 0))) \<and>
   (\<not> IsFeasible t \<and>
    \<not> IsPivotValid (fst (PivotForFeasibility t)) (snd (PivotForFeasibility t)) \<longrightarrow>
      MakeFeasible t = Some (False, t)) \<and>
   (\<forall>t'. feas_pivots 20 t = Some t' \<longrightarrow> MakeFeasible t = Some (False, t'))"
proof (intro conjI allI)
  show "Pivot_enter t = - 1 \<longrightarrow> Pivot t = Some (- 1, - 1)"
    by (simp add: Pivot_def Let_def)
  show "Pivot_enter t \<noteq> - 1 \<and> Pivot_leave t (nat (Pivot_enter t)) = Some (- 1) \<longrightarrow>
      Pivot t = Some (- 1, - 1)"
    by (simp add: Pivot_def Let_def)
  show "Pivot_enter t \<noteq> - 1 \<and> Pivot_leave t (nat (Pivot_enter t)) \<noteq> Some (- 1) \<longrightarrow>
      (\<exists>r s. Pivot t = Some (r, s) \<and> IsPivotValid r s)"
  proof
    assume a: "Pivot_enter t \<noteq> - 1 \<and> Pivot_leave t (nat (Pivot_enter t)) \<noteq> Some (- 1)"
    obtain r where r: "Pivot_leave t (nat (Pivot_enter t)) = Some r"
      "r = - 1 \<or> (\<exists>i < nrows t - 1. \<not> dirtY t ! i \<and> N (Table t ! i ! nat (Pivot_enter t)) > 0 \<and> r = int i)"
      by (rule Pivot_leave_Some)
    from a r have "0 \<le> r" by auto
    moreover from a Pivot_enter_cases[of t] have "0 \<le> Pivot_enter t" by auto
    moreover from a r have "Pivot t = Some (r, Pivot_enter t)" by (auto simp: Pivot_def Let_def)
    ultimately show "\<exists>r s. Pivot t = Some (r, s) \<and> IsPivotValid r s"
      by (simp add: IsPivotValid_def)
  qed
  show "Pivot_enter t = - 1 \<longleftrightarrow> (\<forall>j < ncols t - 1. \<not> (\<not> dirtX t ! j \<and> improving t j))"
    by (rule Pivot_enter_none)
  show "Pivot_leave t s = Some (- 1) \<longleftrightarrow>
      (\<forall>i < nrows t - 1. \<not> (\<not> dirtY t ! i \<and> N (Table t ! i ! s) > 0))" for s
  proof -
    obtain r where r: "Pivot_leave t s = Some r"
      "r = - 1 \<longleftrightarrow> (\<forall>i < nrows t - 1. \<not> (\<not> dirtY t ! i \<and> N (Table t ! i ! s) > 0))"
      by (rule Pivot_leave_Some)
    then show ?thesis by simp
  qed
  show "\<not> IsFeasible t \<and>
    \<not> IsPivotValid (fst (PivotForFeasibility t)) (snd (PivotForFeasibility t)) \<longrightarrow>
      MakeFeasible t = Some (False, t)"
    unfolding MakeFeasible_def by (subst MakeFeasible_loop_unfold) simp
  show "feas_pivots 20 t = Some t' \<longrightarrow> MakeFeasible t = Some (False, t')" for t'
    unfolding MakeFeasible_def using MakeFeasible_loop_cap[of 20 t t' 1] by simp
qed

theorem Pivot_statuses_witness:
  "Pivot ex_optimal = Some (- 1, - 1) \<and> Pivot ex_unbounded = Some (- 1, - 1) \<and>
   (\<exists>r s. Pivot ex_one_step = Some (r, s) \<and> IsPivotValid r s) \<and>
   MakeFeasible ex_infeasible = Some (False, ex_infeasible) \<and>
   (\<exists>t'. MakeFeasible ex_twenty = Some (False, t'))"
proof -
  have p: "Pivot_enter ex_optimal = - 1" "Pivot_enter ex_unbounded = 0"
    "Pivot_leave ex_unbounded 0 = Some (- 1)"
    "Pivot_enter ex_one_step = 0" "Pivot_leave ex_one_step 0 = Some 0"
    "\<not> IsFeasible ex_infeasible" "PivotForFeasibility ex_infeasible = (0, - 1)"
    by code_simp+
  from twenty_rounds[OF twenty_start, of 20] obtain t' where
    t': "feas_pivots 20 ex_twenty = Some t'" by auto
  have w: "wf_tableau ex_optimal" "wf_tableau ex_unbounded" "wf_tableau ex_one_step"
    "wf_tableau ex_infeasible"
    by code_simp+
  have w20: "wf_tableau ex_twenty" using twenty_start by (simp add: twenty_after_def)
  show ?thesis
    using Pivot_statuses [OF w(1)] Pivot_statuses [OF w(2)]
      Pivot_statuses [OF w(3)] Pivot_statuses [OF w(4)]
      Pivot_statuses [OF w20] p t'
    by (simp add: IsPivotValid_def)
qed

text \<open>
  C6 as stated fails: \<open>Pivot\<close> detects optimality on \<open>ex_optimal\<close> (no entering
  column) and unboundedness on \<open>ex_unbounded\<close> (entering column \<open>0\<close>, no limiting
  row), and returns the same value for both.
\<close>

theorem Pivot_statuses_counterexample:
  "Pivot_enter ex_optimal = - 1 \<and> Pivot_enter ex_unbounded = 0 \<and>
   Pivot_leave ex_unbounded 0 = Some (- 1) \<and> Pivot ex_unbounded = Pivot ex_optimal"
  by code_simp

subsection \<open>C7\<close>

text \<open>
  C7. \<open>Init(2, 2)\<close>: the labels, the masks and the flag are as the claim says, but
  every entry of the grid is the zero value \<open>Fraction{0, 0}\<close> of the struct, whose
  denominator is \<open>0\<close>. This is the value that \<open>Pivot\<close> uses for ``infinity'', not
  the zero \<open>Fraction{0, 1}\<close> that the rest of the code writes; adding \<open>3\<close> to such an
  entry gives \<open>0/0\<close> again.
\<close>

theorem Init_entries_zero_denominator:
  "Init 2 2 =
     Some \<lparr>Table = [[\<lparr>N = 0, D = 0\<rparr>, \<lparr>N = 0, D = 0\<rparr>], [\<lparr>N = 0, D = 0\<rparr>, \<lparr>N = 0, D = 0\<rparr>]],
           dirtX = [False, False], dirtY = [False, False],
           RowNames = [''s1'', ''F''], ColNames = [''-x1'', ''const''],
           IsMaximization = True\<rparr> \<and>
   Add \<lparr>N = 0, D = 0\<rparr> \<lparr>N = 3, D = 1\<rparr> = Some \<lparr>N = 0, D = 0\<rparr>"
  by (simp add: Init_def dec.simps numeral_2_eq_2 Add_def add64_def mul64_def wrap_def
      Simplify_zero_num)

subsection \<open>C8\<close>

text \<open>
  C8 (as amended). Let the tableau be well formed with at least two columns, and let
  the labels of its constraint rows be pairwise distinct and different from
  \<open>objective\<close>. Then the mapping of \<open>GetSolution\<close> binds \<open>objective\<close> to the
  constant of the objective row, the label of each constraint row to the constant of
  that row, and each label of a column other than the constant column that is neither
  \<open>objective\<close> nor the label of a constraint row to \<open>0/1\<close>; it has no other keys.
\<close>

theorem GetSolution_bindings:
  assumes "wf_tableau t" "2 \<le> ncols t"
    and "distinct (take (nrows t - 1) (RowNames t))"
    and "''objective'' \<notin> set (take (nrows t - 1) (RowNames t))"
  shows "GetSolution t ''objective'' = Some (Table t ! (nrows t - 1) ! (ncols t - 1)) \<and>
     (\<forall>i < nrows t - 1. GetSolution t (RowNames t ! i) = Some (Table t ! i ! (ncols t - 1))) \<and>
     (\<forall>j < ncols t - 1.
        ColNames t ! j \<noteq> ''objective'' \<and> ColNames t ! j \<notin> set (take (nrows t - 1) (RowNames t)) \<longrightarrow>
        GetSolution t (ColNames t ! j) = Some \<lparr>N = 0, D = 1\<rparr>) \<and>
     dom (GetSolution t) =
       {''objective''} \<union> set (take (nrows t - 1) (RowNames t))
         \<union> set (take (ncols t - 1) (ColNames t))"
proof -
  let ?m = "nrows t" and ?n = "ncols t"
  let ?f = "\<lambda>i. RowNames t ! i" and ?g = "\<lambda>i. Table t ! i ! (?n - 1)"
  let ?c = "\<lambda>j. ColNames t ! j"
  let ?G = "\<lambda>sol i. foldl (\<lambda>sol' j. sol'(RowNames t ! i \<mapsto> Table t ! i ! (?n - 1))) sol [0..<?n - 1]"
  let ?H = "\<lambda>sol j. if sol (ColNames t ! j) = None
                      then sol(ColNames t ! j \<mapsto> \<lparr>N = 0, D = 1\<rparr>) else sol"
  let ?sol0 = "[''objective'' \<mapsto> Table t ! (?m - 1) ! (?n - 1)]"
  let ?sol1 = "foldl ?G ?sol0 [0..<?m - 1]"
  have ne: "[0..<?n - 1] \<noteq> []" using assms(2) by simp
  have G: "?G sol i = sol(?f i \<mapsto> ?g i)" for sol i
    by (rule foldl_same_update[OF _ ne]) (rule refl)
  note U = foldl_updates[where F = ?G and f = ?f and g = ?g, OF G]
  note Dflt = foldl_default[where F = ?H and c = ?c and z = "\<lparr>N = 0, D = 1\<rparr>", OF refl]
  have len: "length (RowNames t) = ?m" "length (ColNames t) = ?n"
    using assms(1) by (simp_all add: wf_tableau_def nrows_def ncols_def)
  have rows: "map ?f [0..<?m - 1] = take (?m - 1) (RowNames t)"
    by (rule nth_upt_take) (simp add: len)
  have cols: "map ?c [0..<?n - 1] = take (?n - 1) (ColNames t)"
    by (rule nth_upt_take) (simp add: len)
  have rset: "?f ` set [0..<?m - 1] = set (take (?m - 1) (RowNames t))"
    using arg_cong[OF rows, of set] by simp
  have cset: "?c ` set [0..<?n - 1] = set (take (?n - 1) (ColNames t))"
    using arg_cong[OF cols, of set] by simp
  have S: "GetSolution t = foldl ?H ?sol1 [0..<?n - 1]"
    by (simp add: GetSolution_def Let_def nrows_def ncols_def)
  have obj1: "?sol1 ''objective'' = Some (Table t ! (?m - 1) ! (?n - 1))"
  proof -
    have "''objective'' \<notin> ?f ` set [0..<?m - 1]" using assms(4) rset by simp
    from U(1)[OF this, of ?sol0] show ?thesis by simp
  qed
  have row1: "?sol1 (?f i) = Some (?g i)" if "i < ?m - 1" for i
  proof -
    have "distinct (map ?f [0..<?m - 1])" using assms(3) rows by simp
    moreover have "i \<in> set [0..<?m - 1]" using that by simp
    ultimately show ?thesis by (rule U(2))
  qed
  have dom1: "dom ?sol1 = {''objective''} \<union> set (take (?m - 1) (RowNames t))"
    using U(3)[of ?sol0 "[0..<?m - 1]"] rset by simp
  have 1: "GetSolution t ''objective'' = Some (Table t ! (?m - 1) ! (?n - 1))"
    unfolding S by (rule Dflt(1)[where sol = ?sol1 and k = "''objective''", OF obj1])
  have 2: "GetSolution t (?f i) = Some (?g i)" if "i < ?m - 1" for i
    unfolding S by (rule Dflt(1)[where sol = ?sol1 and k = "?f i", OF row1[OF that]])
  have 3: "GetSolution t (?c j) = Some \<lparr>N = 0, D = 1\<rparr>"
    if "j < ?n - 1" "?c j \<noteq> ''objective''" "?c j \<notin> set (take (?m - 1) (RowNames t))" for j
  proof -
    from that(2,3) dom1 have "?c j \<notin> dom ?sol1" by simp
    then have "?sol1 (?c j) = None" by (simp add: domIff)
    from Dflt(2)[where sol = ?sol1 and k = "?c j" and js = "[0..<?n - 1]", OF this] that(1)
    show ?thesis unfolding S by simp
  qed
  have 4: "dom (GetSolution t) =
       {''objective''} \<union> set (take (?m - 1) (RowNames t)) \<union> set (take (?n - 1) (ColNames t))"
    unfolding S using Dflt(3)[of ?sol1 "[0..<?n - 1]"] dom1 cset
    by simp
  from 1 2 3 4 show ?thesis by blast
qed

theorem GetSolution_bindings_witness:
  "GetSolution ex_numerators ''objective'' = Some (frac 0 1) \<and>
   GetSolution ex_numerators ''s1'' = Some (frac 4 1) \<and>
   GetSolution ex_numerators ''-x2'' = Some (frac 0 1) \<and>
   dom (GetSolution ex_numerators) = {''objective'', ''s1'', ''-x1'', ''-x2''}"
proof -
  have h: "wf_tableau ex_numerators" "2 \<le> ncols ex_numerators"
    "distinct (take (nrows ex_numerators - 1) (RowNames ex_numerators))"
    "''objective'' \<notin> set (take (nrows ex_numerators - 1) (RowNames ex_numerators))"
    by code_simp+
  have e: "nrows ex_numerators = 2" "ncols ex_numerators = 3"
    "RowNames ex_numerators = [''s1'', ''F'']"
    "ColNames ex_numerators = [''-x1'', ''-x2'', ''const'']"
    "Table ex_numerators = [[frac 1 1, frac 1 1, frac 4 1],
      [frac (- 1) 1, frac (- 3) 4, frac 0 1]]"
    by (simp_all add: ex_numerators_def tableau_of_def nrows_def ncols_def dec.simps
        numeral_2_eq_2 numeral_3_eq_3)
  note G = GetSolution_bindings [OF h, unfolded e]
  from G have "GetSolution ex_numerators ''objective'' = Some (frac 0 1)" by simp
  moreover from G have "GetSolution ex_numerators ''s1'' = Some (frac 4 1)" by simp
  moreover have "GetSolution ex_numerators ''-x2'' = Some (frac 0 1)"
    using G [THEN conjunct2, THEN conjunct2, THEN conjunct1, rule_format, of 1]
    by (simp add: frac_def)
  moreover from G have "dom (GetSolution ex_numerators) = {''objective'', ''s1'', ''-x1'', ''-x2''}"
    by (auto simp: numeral_2_eq_2)
  ultimately show ?thesis by blast
qed

text \<open>
  C8 as stated fails when a constraint row carries the label \<open>objective\<close>: the
  row loop overwrites the key, and \<open>objective\<close> is bound to the constant \<open>4\<close> of row
  \<open>0\<close> instead of the constant \<open>7\<close> of the objective row.
\<close>

theorem GetSolution_label_clash_counterexample:
  "wf_tableau ex_label_clash \<and>
   Table ex_label_clash ! (nrows ex_label_clash - 1) ! (ncols ex_label_clash - 1) = frac 7 1 \<and>
   GetSolution ex_label_clash ''objective'' = Some (frac 4 1)"
  by code_simp

subsection \<open>C9\<close>

text \<open>
  C9 (as amended). \<open>IsOptimal\<close> is false on every tableau on which \<open>Pivot\<close> returns
  a valid pair, that is immediately before the pivot that an improving column selected;
  and on every tableau on which \<open>IsOptimal\<close> is true, \<open>Pivot\<close> returns the invalid
  pair \<open>(-1, -1)\<close>. Nothing is said about \<open>IsOptimal\<close> after the transform.
\<close>

theorem IsOptimal_Pivot:
  "(\<forall>r s. Pivot t = Some (r, s) \<and> IsPivotValid r s \<longrightarrow> \<not> IsOptimal t) \<and>
   (IsOptimal t \<longrightarrow> Pivot t = Some (- 1, - 1))"
proof -
  obtain r s where P: "Pivot t = Some (r, s)"
    "(r = - 1 \<and> s = - 1) \<or>
     (\<exists>i j. r = int i \<and> s = int j \<and> Pivot_enter t = int j \<and> i < nrows t - 1 \<and> j < ncols t - 1 \<and>
        \<not> dirtY t ! i \<and> \<not> dirtX t ! j \<and> improving t j \<and> N (Table t ! i ! j) > 0)"
    by (rule Pivot_Some)
  have 1: "\<not> IsOptimal t" if "IsPivotValid r s"
  proof -
    from that P(2) obtain j where "j < ncols t - 1" "improving t j"
      by (auto simp: IsPivotValid_def)
    then show ?thesis unfolding IsOptimal_iff by blast
  qed
  have 2: "Pivot t = Some (- 1, - 1)" if "IsOptimal t"
  proof -
    from that have "\<forall>j < ncols t - 1. \<not> improving t j" by (simp only: IsOptimal_iff)
    with P(2) have "r = - 1 \<and> s = - 1" by blast
    with P(1) show ?thesis by simp
  qed
  show ?thesis
  proof (intro conjI allI impI)
    fix r' s' assume "Pivot t = Some (r', s') \<and> IsPivotValid r' s'"
    with P(1) have "IsPivotValid r s" by simp
    then show "\<not> IsOptimal t" by (rule 1)
  next
    assume "IsOptimal t" then show "Pivot t = Some (- 1, - 1)" by (rule 2)
  qed
qed

theorem IsOptimal_Pivot_witness:
  "Pivot ex_one_step = Some (0, 0) \<and> \<not> IsOptimal ex_one_step \<and>
   IsOptimal ex_optimal \<and> Pivot ex_optimal = Some (- 1, - 1)"
proof -
  have p: "Pivot ex_one_step = Some (0, 0)" "IsOptimal ex_optimal" by code_simp+
  show ?thesis
    using IsOptimal_Pivot [of ex_one_step] IsOptimal_Pivot [of ex_optimal] p
    by (simp add: IsPivotValid_def)
qed

text \<open>
  C9 as stated fails: \<open>Pivot\<close> selects \<open>(0, 0)\<close> on \<open>ex_one_step\<close> because column
  \<open>0\<close> is improving, and the tableau that \<open>Transform\<close> returns for this pivot is
  already optimal.
\<close>

theorem IsOptimal_after_pivot_counterexample:
  "Pivot ex_one_step = Some (0, 0) \<and> IsPivotValid 0 0 \<and> improving ex_one_step 0 \<and>
   map_option IsOptimal (Transform ex_one_step 0 0) = Some True"
  by code_simp

subsection \<open>C10\<close>

text \<open>
  C10. On a well-formed tableau with at least two rows and two columns, \<open>Pivot\<close>
  returns a pair, and when the pair is valid its row is an unmasked row with index at
  most \<open>m-2\<close>, its column an unmasked column with index at most \<open>n-2\<close>, and the
  entry there has a strictly positive numerator. A valid pair of
  \<open>PivotForFeasibility\<close> is in the same ranges and its entry has a strictly negative
  numerator. So \<open>Transform\<close> on either pair returns a tableau, and its divisor, the
  pivot element \<open>Table ! r ! s\<close> by which every division of \<open>Transform\<close> and
  \<open>fillElement\<close> divides, has a numerator that is not zero.
\<close>

theorem pivots_are_safe:
  assumes "wf_tableau t" "2 \<le> nrows t" "2 \<le> ncols t"
  shows "(\<exists>r s. Pivot t = Some (r, s) \<and>
            (IsPivotValid r s \<longrightarrow>
               nat r \<le> nrows t - 2 \<and> \<not> dirtY t ! nat r \<and>
               nat s \<le> ncols t - 2 \<and> \<not> dirtX t ! nat s \<and>
               0 < N (Table t ! nat r ! nat s) \<and>
               N (Table t ! nat r ! nat s) \<noteq> 0 \<and> Transform t r s \<noteq> None)) \<and>
         (IsPivotValid (fst (PivotForFeasibility t)) (snd (PivotForFeasibility t)) \<longrightarrow>
            (\<exists>r s. PivotForFeasibility t = (int r, int s) \<and>
               r \<le> nrows t - 2 \<and> \<not> dirtY t ! r \<and> s \<le> ncols t - 2 \<and> \<not> dirtX t ! s \<and>
               N (Table t ! r ! s) < 0 \<and>
               N (Table t ! r ! s) \<noteq> 0 \<and> Transform t (int r) (int s) \<noteq> None))"
proof
  obtain r s where P: "Pivot t = Some (r, s)"
    "(r = - 1 \<and> s = - 1) \<or>
     (\<exists>i j. r = int i \<and> s = int j \<and> Pivot_enter t = int j \<and> i < nrows t - 1 \<and> j < ncols t - 1 \<and>
        \<not> dirtY t ! i \<and> \<not> dirtX t ! j \<and> improving t j \<and> N (Table t ! i ! j) > 0)"
    by (rule Pivot_Some)
  have "nat r \<le> nrows t - 2 \<and> \<not> dirtY t ! nat r \<and>
        nat s \<le> ncols t - 2 \<and> \<not> dirtX t ! nat s \<and>
        0 < N (Table t ! nat r ! nat s) \<and>
        N (Table t ! nat r ! nat s) \<noteq> 0 \<and> Transform t r s \<noteq> None" if "IsPivotValid r s"
  proof -
    from that P(2) obtain i j where ij: "r = int i" "s = int j" "i < nrows t - 1" "j < ncols t - 1"
      "\<not> dirtY t ! i" "\<not> dirtX t ! j" "N (Table t ! i ! j) > 0"
      by (auto simp: IsPivotValid_def)
    have "Transform t r s \<noteq> None"
      using Transform_Some[of r s t] ij by simp
    with ij show ?thesis by auto
  qed
  with P(1) show "\<exists>r s. Pivot t = Some (r, s) \<and>
            (IsPivotValid r s \<longrightarrow>
               nat r \<le> nrows t - 2 \<and> \<not> dirtY t ! nat r \<and>
               nat s \<le> ncols t - 2 \<and> \<not> dirtX t ! nat s \<and>
               0 < N (Table t ! nat r ! nat s) \<and>
               N (Table t ! nat r ! nat s) \<noteq> 0 \<and> Transform t r s \<noteq> None)"
    by blast
next
  show "IsPivotValid (fst (PivotForFeasibility t)) (snd (PivotForFeasibility t)) \<longrightarrow>
            (\<exists>r s. PivotForFeasibility t = (int r, int s) \<and>
               r \<le> nrows t - 2 \<and> \<not> dirtY t ! r \<and> s \<le> ncols t - 2 \<and> \<not> dirtX t ! s \<and>
               N (Table t ! r ! s) < 0 \<and>
               N (Table t ! r ! s) \<noteq> 0 \<and> Transform t (int r) (int s) \<noteq> None)"
  proof (cases t rule: PivotForFeasibility_cases)
    case norow
    then show ?thesis by (simp add: IsPivotValid_def)
  next
    case (nocol i)
    then show ?thesis by (simp add: IsPivotValid_def)
  next
    case (pivot i j)
    have "Transform t (int i) (int j) \<noteq> None"
      using Transform_Some[of "int i" "int j" t] pivot by simp
    with pivot show ?thesis by (intro impI exI[of _ i] exI[of _ j]) auto
  qed
qed

theorem pivots_are_safe_witness:
  "Pivot ex_both = Some (1, 1) \<and> 0 < N (Table ex_both ! 1 ! 1) \<and> Transform ex_both 1 1 \<noteq> None \<and>
   PivotForFeasibility ex_both = (0, 1) \<and> N (Table ex_both ! 0 ! 1) < 0 \<and>
   Transform ex_both 0 1 \<noteq> None"
proof -
  have h: "wf_tableau ex_both" "2 \<le> nrows ex_both" "2 \<le> ncols ex_both"
    by code_simp+
  have p: "Pivot ex_both = Some (1, 1)" "PivotForFeasibility ex_both = (0, 1)"
    by code_simp+
  show ?thesis using pivots_are_safe [OF h] p by (simp add: IsPivotValid_def)
qed

end
